theory Spec2Isabelle
  imports Main "HOL-Library.AList"
begin

section \<open>Graph model (Graph3DView.ts)\<close>

text \<open>
  \<^verbatim>\<open>export type GraphNode = { label: string, resolved: boolean };\<close>
  \<^verbatim>\<open>export type VaultGraph = Graph<GraphNode, number>;\<close>
\<close>

record GraphNode =
  label :: string
  resolved :: bool

type_synonym NodeId = nat

text \<open>
  The graph store is the external library ngraph.graph (\<^verbatim>\<open>createGraph()\<close>, no
  options, so at most one link per ordered pair of nodes). Its two tables are
  insertion-ordered JavaScript Maps: nodes keyed by node id, links keyed by the link id
  that \<^verbatim>\<open>makeLinkId(fromId, toId)\<close> builds from the two endpoints. A Map is an
  association list with distinct keys; \<open>Map.set\<close> is \<open>AList.update\<close> (an existing key
  keeps its place, a new key is appended) and \<open>Map.delete\<close> is \<open>AList.delete\<close>.
  A link id is the pair of its endpoints and the link's value is its \<open>data\<close> payload.
\<close>

type_synonym LinkId = "NodeId \<times> NodeId"

record Graph =
  nodes :: "(NodeId \<times> GraphNode) list"
  links :: "(LinkId \<times> nat) list"

definition getNode :: "Graph \<Rightarrow> NodeId \<Rightarrow> GraphNode option" where
  "getNode g i = map_of (nodes g) i"

definition getNodeCount :: "Graph \<Rightarrow> nat" where
  "getNodeCount g = length (nodes g)"

definition getLinkCount :: "Graph \<Rightarrow> nat" where
  "getLinkCount g = length (links g)"

text \<open>\<^verbatim>\<open>addNode(nodeId, data)\<close>: a known id gets its data replaced, a new id is appended.\<close>

definition addNode :: "Graph \<Rightarrow> NodeId \<Rightarrow> GraphNode \<Rightarrow> Graph" where
  "addNode g i d = g\<lparr>nodes := AList.update i d (nodes g)\<rparr>"

definition hasLink :: "Graph \<Rightarrow> NodeId \<Rightarrow> NodeId \<Rightarrow> bool" where
  "hasLink g a b = (map_of (links g) (a, b) \<noteq> None)"

text \<open>
  \<^verbatim>\<open>addLink(fromId, toId, data)\<close>: an existing link between the two nodes gets its
  data replaced, otherwise the link is appended. (The library also creates a missing
  endpoint node; \<open>link\<close> below is private and is only ever handed ids that
  \<open>addOrGetNode\<close> returned or that \<open>forEachNode\<close> enumerated, so both endpoints exist.)
\<close>

definition addLink :: "Graph \<Rightarrow> NodeId \<Rightarrow> NodeId \<Rightarrow> nat \<Rightarrow> Graph" where
  "addLink g a b d = g\<lparr>links := AList.update (a, b) d (links g)\<rparr>"

definition removeLink :: "Graph \<Rightarrow> LinkId \<Rightarrow> Graph" where
  "removeLink g l = g\<lparr>links := AList.delete l (links g)\<rparr>"

text \<open>
  \<^verbatim>\<open>forEachLinkedNode(nodeId, callback, true)\<close> visits the links that leave the node.
  The callback used here removes at most the link it is visiting, which the library's
  Set iteration tolerates, so the links present at entry are each visited once.
\<close>

definition forEachLinkedNode ::
  "Graph \<Rightarrow> NodeId \<Rightarrow> (Graph \<Rightarrow> LinkId \<times> nat \<Rightarrow> Graph) \<Rightarrow> Graph" where
  "forEachLinkedNode g sourceId handler =
     foldl handler g (filter (\<lambda>l. fst (fst l) = sourceId) (links g))"

text \<open>
  \<^verbatim>\<open>class Graph3DLayout { nameToId: Map<string, NodeId>; layout: Layout<VaultGraph>; ... }\<close>
  with \<^verbatim>\<open>get graph() { return this.layout.graph; }\<close>.
\<close>

record Graph3DLayout =
  nameToId :: "(string \<times> NodeId) list"
  graph :: Graph

text \<open>The constructor: an empty map and an empty graph.\<close>

definition newLayout :: Graph3DLayout where
  "newLayout = \<lparr>nameToId = [], graph = \<lparr>nodes = [], links = []\<rparr>\<rparr>"

text \<open>
  The link-source snapshot: \<^verbatim>\<open>Record<string, Record<string, number>>\<close>, each record
  listed in the order \<^verbatim>\<open>Object.entries\<close> enumerates it.
\<close>

type_synonym LinkRecord = "(string \<times> (string \<times> int) list) list"

record MetadataCache =
  resolvedLinks :: LinkRecord
  unresolvedLinks :: LinkRecord

subsection \<open>addOrGetNode and link\<close>

text \<open>
  \<^verbatim>\<open>
  private addOrGetNode(node: GraphNode) {
      let nodeId = this.nameToId.get(node.label);
      if (nodeId === undefined) { nodeId = this.graph.getNodeCount(); }
      this.graph.addNode(nodeId, node);
      this.nameToId.set(node.label, nodeId);
      return nodeId;
  }
  \<close>
\<close>

definition addOrGetNode :: "Graph3DLayout \<Rightarrow> GraphNode \<Rightarrow> NodeId \<times> Graph3DLayout" where
  "addOrGetNode st node =
     (let nodeId = (case map_of (nameToId st) (label node) of
                      None \<Rightarrow> getNodeCount (graph st)
                    | Some i \<Rightarrow> i)
      in (nodeId, st\<lparr>graph := addNode (graph st) nodeId node,
                     nameToId := AList.update (label node) nodeId (nameToId st)\<rparr>))"

text \<open>
  \<^verbatim>\<open>
  private link(sourceId: NodeId, targetIndex: NodeId) {
      if (!this.graph.hasLink(sourceId, targetIndex)) {
          this.graph.addLink(sourceId, targetIndex, 2 * this.graph.getLinkCount());
      }
  }
  \<close>
\<close>

definition link :: "Graph3DLayout \<Rightarrow> NodeId \<Rightarrow> NodeId \<Rightarrow> Graph3DLayout" where
  "link st sourceId targetIndex =
     (if \<not> hasLink (graph st) sourceId targetIndex
      then st\<lparr>graph := addLink (graph st) sourceId targetIndex (2 * getLinkCount (graph st))\<rparr>
      else st)"

subsection \<open>fromMetadataCache\<close>

text \<open>The inner loop of \<open>addLinks\<close>, over the targets of one source.\<close>

fun addLinks_targets ::
  "bool \<Rightarrow> NodeId \<Rightarrow> Graph3DLayout \<Rightarrow> (string \<times> int) list \<Rightarrow> Graph3DLayout" where
  "addLinks_targets r sourceId st [] = st"
| "addLinks_targets r sourceId st ((targetFile, w) # ts) =
     (let (targetIndex, st') = addOrGetNode st \<lparr>label = targetFile, resolved = r\<rparr>
      in addLinks_targets r sourceId (link st' sourceId targetIndex) ts)"

fun addLinks :: "Graph3DLayout \<Rightarrow> LinkRecord \<Rightarrow> bool \<Rightarrow> Graph3DLayout" where
  "addLinks st [] r = st"
| "addLinks st ((sourceFile, targets) # ls) r =
     (let (sourceId, st1) = addOrGetNode st \<lparr>label = sourceFile, resolved = True\<rparr>
      in addLinks (addLinks_targets r sourceId st1 targets) ls r)"

definition fromMetadataCache :: "Graph3DLayout \<Rightarrow> MetadataCache \<Rightarrow> Graph3DLayout" where
  "fromMetadataCache st mc =
     addLinks (addLinks st (resolvedLinks mc) True) (unresolvedLinks mc) False"

subsection \<open>syncWithCache\<close>

text \<open>
  \<^verbatim>\<open>metadataCache.resolvedLinks[sourceFile] || {}\<close>: the record stored under the
  key, or no targets. (A key that only reaches a property inherited from
  \<open>Object.prototype\<close> yields a value without enumerable keys, again no targets.)
\<close>

definition targetsOf :: "LinkRecord \<Rightarrow> string \<Rightarrow> (string \<times> int) list" where
  "targetsOf r sourceFile = (case map_of r sourceFile of None \<Rightarrow> [] | Some ts \<Rightarrow> ts)"

text \<open>The two addition loops of the \<open>forEachNode\<close> callback.\<close>

fun syncTargets ::
  "bool \<Rightarrow> NodeId \<Rightarrow> Graph3DLayout \<Rightarrow> string list \<Rightarrow> Graph3DLayout" where
  "syncTargets r sourceId st [] = st"
| "syncTargets r sourceId st (targetFile # ts) =
     (let (targetId, st') = addOrGetNode st \<lparr>label = targetFile, resolved = r\<rparr>
      in syncTargets r sourceId
           (if \<not> hasLink (graph st') sourceId targetId then link st' sourceId targetId else st')
           ts)"

text \<open>
  \<^verbatim>\<open>!allTargets[targetFile]\<close> on the object literal
  \<^verbatim>\<open>{ ...resolvedTargets, ...unresolvedTargets }\<close>: an own key reads its weight, which
  is truthy unless it is 0; any other key falls through to \<open>Object.prototype\<close>, whose
  properties are all truthy.
\<close>

definition objectPrototypeKeys :: "string list" where
  "objectPrototypeKeys =
     [''constructor'', ''hasOwnProperty'', ''isPrototypeOf'', ''propertyIsEnumerable'',
      ''toLocaleString'', ''toString'', ''valueOf'', ''__proto__'',
      ''__defineGetter__'', ''__defineSetter__'', ''__lookupGetter__'', ''__lookupSetter__'']"

definition truthyAt :: "(string \<times> int) list \<Rightarrow> string \<Rightarrow> bool" where
  "truthyAt obj key =
     (case map_of obj key of
        Some w \<Rightarrow> w \<noteq> 0
      | None \<Rightarrow> key \<in> set objectPrototypeKeys)"

text \<open>
  \<^verbatim>\<open>
  const nodeHandler = (target, link) => {
      const targetFile = this.graph.getNode(target.id)?.data.label;
      if (targetFile && !allTargets[targetFile]) { this.graph.removeLink(link); }
  };
  \<close>
  The empty string is falsy.
\<close>

definition nodeHandler :: "(string \<times> int) list \<Rightarrow> Graph \<Rightarrow> LinkId \<times> nat \<Rightarrow> Graph" where
  "nodeHandler allTargets g l =
     (case getNode g (snd (fst l)) of
        None \<Rightarrow> g
      | Some target \<Rightarrow>
          if label target \<noteq> [] \<and> \<not> truthyAt allTargets (label target)
          then removeLink g (fst l) else g)"

text \<open>The \<open>forEachNode\<close> callback of \<open>syncWithCache\<close>, for the node \<open>sourceId\<close>.\<close>

definition syncNode :: "MetadataCache \<Rightarrow> Graph3DLayout \<Rightarrow> NodeId \<Rightarrow> Graph3DLayout" where
  "syncNode mc st sourceId =
     (case getNode (graph st) sourceId of
        None \<Rightarrow> st
      | Some source \<Rightarrow>
          (let sourceFile = label source;
               resolvedTargets = targetsOf (resolvedLinks mc) sourceFile;
               unresolvedTargets = targetsOf (unresolvedLinks mc) sourceFile;
               st1 = syncTargets True sourceId st (map fst resolvedTargets);
               st2 = syncTargets False sourceId st1 (map fst unresolvedTargets);
               allTargets = AList.merge resolvedTargets unresolvedTargets
           in st2\<lparr>graph := forEachLinkedNode (graph st2) sourceId (nodeHandler allTargets)\<rparr>))"

text \<open>
  \<^verbatim>\<open>
  syncWithCache(metadataCache) {
      this.fromMetadataCache(metadataCache);
      this.graph.forEachNode(source => { ... });
  }
  \<close>
  Every label of the snapshot is in \<open>nameToId\<close> once \<open>fromMetadataCache\<close> has run, so
  the callback adds no node and the loop visits the nodes present at its entry.
\<close>

definition syncWithCache :: "Graph3DLayout \<Rightarrow> MetadataCache \<Rightarrow> Graph3DLayout" where
  "syncWithCache st mc =
     (let st0 = fromMetadataCache st mc
      in foldl (syncNode mc) st0 (map fst (nodes (graph st0))))"

section \<open>Consistency of the layout\<close>

text \<open>
  The states the synchronizer can reach: the node ids are \<open>0, ..., n - 1\<close> in insertion
  order, \<open>nameToId\<close> maps exactly the label of node \<open>i\<close> to \<open>i\<close>, the link table has
  one entry per link id, and every link joins two nodes. The empty layout of the
  constructor is consistent and every operation keeps a consistent layout consistent.
\<close>

definition ids :: "Graph3DLayout \<Rightarrow> NodeId set" where
  "ids st = fst ` set (nodes (graph st))"

definition consistent :: "Graph3DLayout \<Rightarrow> bool" where
  "consistent st =
     (let ns = nodes (graph st); n = length ns in
        map fst ns = [0..<n] \<and>
        distinct (map fst (nameToId st)) \<and>
        list_all (\<lambda>(l, i). map_option label (map_of ns i) = Some l) (nameToId st) \<and>
        list_all (\<lambda>(i, d). map_of (nameToId st) (label d) = Some i) ns \<and>
        distinct (map fst (links (graph st))) \<and>
        list_all (\<lambda>l. fst (fst l) < n \<and> snd (fst l) < n) (links (graph st)))"

lemma addOrGetNode_fst:
  "fst (addOrGetNode st nd) =
     (case map_of (nameToId st) (label nd) of None \<Rightarrow> length (nodes (graph st)) | Some i \<Rightarrow> i)"
  by (simp add: addOrGetNode_def Let_def getNodeCount_def split: option.splits)

lemma addOrGetNode_nameToId:
  "nameToId (snd (addOrGetNode st nd)) =
     AList.update (label nd) (fst (addOrGetNode st nd)) (nameToId st)"
  by (simp add: addOrGetNode_def Let_def)

lemma addOrGetNode_nodes:
  "nodes (graph (snd (addOrGetNode st nd))) =
     AList.update (fst (addOrGetNode st nd)) nd (nodes (graph st))"
  by (simp add: addOrGetNode_def Let_def addNode_def)

lemma addOrGetNode_links [simp]:
  "links (graph (snd (addOrGetNode st nd))) = links (graph st)"
  by (simp add: addOrGetNode_def Let_def addNode_def)

lemma link_nameToId [simp]: "nameToId (link st a b) = nameToId st"
  by (simp add: link_def)

lemma link_nodes [simp]: "nodes (graph (link st a b)) = nodes (graph st)"
  by (simp add: link_def addLink_def)

lemma map_of_in_set:
  "distinct (map fst al) \<Longrightarrow> (map_of al k = Some v) = ((k, v) \<in> set al)"
  by (auto dest: map_of_SomeD)

lemma consistent_alt:
  "consistent st \<longleftrightarrow>
     (map fst (nodes (graph st)) = [0..<length (nodes (graph st))] \<and>
      distinct (map fst (nameToId st)) \<and>
      (\<forall>l i. map_of (nameToId st) l = Some i \<longrightarrow>
             map_option label (map_of (nodes (graph st)) i) = Some l) \<and>
      (\<forall>i d. map_of (nodes (graph st)) i = Some d \<longrightarrow>
             map_of (nameToId st) (label d) = Some i) \<and>
      distinct (map fst (links (graph st))) \<and>
      (\<forall>l\<in>set (links (graph st)).
             fst (fst l) < length (nodes (graph st)) \<and> snd (fst l) < length (nodes (graph st))))"
proof -
  have d: "map fst (nodes (graph st)) = [0..<length (nodes (graph st))] \<Longrightarrow>
           distinct (map fst (nodes (graph st)))"
    by (metis distinct_upt)
  show ?thesis
    unfolding consistent_def Let_def list_all_iff
    apply (intro iffI conjI; (elim conjE)?)
    apply (simp_all)
    apply (auto simp: map_of_in_set d)
    done
qed

lemma consistent_newLayout: "consistent newLayout"
  by (simp add: consistent_def newLayout_def)

lemma consistent_ids: "consistent st \<Longrightarrow> ids st = {..<length (nodes (graph st))}"
  unfolding consistent_alt ids_def
  by (metis atLeast_upt list.set_map)

lemma length_update:
  "length (AList.update k v al) = (if k \<in> set (map fst al) then length al else Suc (length al))"
  using update_keys [of k v al] by (metis length_map length_append_singleton)

lemma consistent_addOrGetNode:
  assumes "consistent st"
  shows "consistent (snd (addOrGetNode st nd))"
proof (cases "map_of (nameToId st) (label nd)")
  case None
  have k: "length (nodes (graph st)) \<notin> set (map fst (nodes (graph st)))"
    using assms unfolding consistent_alt by (metis atLeastLessThan_iff less_irrefl set_upt)
  have n: "\<And>d. map_of (nodes (graph st)) (length (nodes (graph st))) \<noteq> Some d"
    using k by (simp add: map_of_eq_None_iff [symmetric])
  show ?thesis
    using assms None k n unfolding consistent_alt
    apply (simp add: addOrGetNode_nameToId addOrGetNode_nodes addOrGetNode_fst
        update_conv' update_keys distinct_update length_update del: map_of_eq_Some_iff)
    apply (intro conjI allI impI)
    apply (auto split: if_splits simp: less_Suc_eq simp del: map_of_eq_Some_iff)
    apply (metis option.distinct(1))
    apply (metis option.distinct(1))
    done
next
  case (Some i)
  then have lab: "map_option label (map_of (nodes (graph st)) i) = Some (label nd)"
    using assms unfolding consistent_alt by blast
  then have k: "i \<in> set (map fst (nodes (graph st)))"
    using map_of_eq_None_iff [of "nodes (graph st)" i] by auto
  show ?thesis
    using assms Some k lab unfolding consistent_alt
    apply (simp add: addOrGetNode_nameToId addOrGetNode_nodes addOrGetNode_fst
        update_conv' update_keys distinct_update length_update del: map_of_eq_Some_iff)
    apply (intro conjI allI impI)
    apply (auto split: if_splits simp del: map_of_eq_Some_iff)
    apply (metis option.inject)
    apply (metis option.inject)
    done
qed

lemma set_update_subset: "set (AList.update k v al) \<subseteq> insert (k, v) (set al)"
  by (induction al) auto

lemma consistent_link:
  assumes "consistent st" "a \<in> ids st" "b \<in> ids st"
  shows "consistent (link st a b)"
proof -
  have ab: "a < length (nodes (graph st))" "b < length (nodes (graph st))"
    using assms consistent_ids by auto
  show ?thesis
    using assms(1) ab unfolding consistent_alt link_def addLink_def
    by (auto simp: distinct_update dest!: set_mp [OF set_update_subset]
        simp del: map_of_eq_Some_iff)
qed

lemma removeLink_nodes [simp]: "nodes (removeLink g l) = nodes g"
  by (simp add: removeLink_def)

lemma removeLink_links: "links (removeLink g l) = AList.delete l (links g)"
  by (simp add: removeLink_def)

lemma set_delete_subset: "set (AList.delete k al) \<subseteq> set al"
  by (auto simp: AList.delete_eq)

lemma consistent_removeLink:
  assumes "consistent st"
  shows "consistent (st\<lparr>graph := removeLink (graph st) l\<rparr>)"
  using assms set_delete_subset [of l "links (graph st)"] unfolding consistent_alt
  by (auto simp: distinct_delete removeLink_links simp del: map_of_eq_Some_iff)

text \<open>
  Every synchronizer operation is a sequence of three kinds of step: an \<open>addOrGetNode\<close>
  with a node taken from a set \<open>W\<close>, a \<open>link\<close> between two existing nodes, and a
  \<open>removeLink\<close>. What holds along every such sequence holds for the operations.
\<close>

inductive steps :: "GraphNode set \<Rightarrow> Graph3DLayout \<Rightarrow> Graph3DLayout \<Rightarrow> bool"
  for W :: "GraphNode set" and st :: Graph3DLayout where
  steps_refl: "steps W st st"
| steps_node: "steps W st st1 \<Longrightarrow> nd \<in> W \<Longrightarrow> steps W st (snd (addOrGetNode st1 nd))"
| steps_link: "steps W st st1 \<Longrightarrow> a \<in> ids st1 \<Longrightarrow> b \<in> ids st1 \<Longrightarrow> steps W st (link st1 a b)"
| steps_unlink: "steps W st st1 \<Longrightarrow> steps W st (st1\<lparr>graph := removeLink (graph st1) l\<rparr>)"

lemma steps_trans: "steps W st1 st2 \<Longrightarrow> steps W st0 st1 \<Longrightarrow> steps W st0 st2"
  by (induction rule: steps.induct) (auto intro: steps.intros)

lemma steps_mono: "steps W st st' \<Longrightarrow> W \<subseteq> W' \<Longrightarrow> steps W' st st'"
  by (induction rule: steps.induct) (auto intro: steps.intros)

lemma steps_consistent: "steps W st st' \<Longrightarrow> consistent st \<Longrightarrow> consistent st'"
  by (induction rule: steps.induct)
     (auto intro: consistent_addOrGetNode consistent_link consistent_removeLink)

lemma ids_addOrGetNode:
  "ids (snd (addOrGetNode st nd)) = insert (fst (addOrGetNode st nd)) (ids st)"
  by (simp add: ids_def addOrGetNode_nodes dom_update)

lemma ids_link [simp]: "ids (link st a b) = ids st"
  by (simp add: ids_def)

lemma ids_removeLink [simp]: "ids (st\<lparr>graph := removeLink (graph st) l\<rparr>) = ids st"
  by (simp add: ids_def removeLink_def)

lemma nameToId_removeLink [simp]:
  "nameToId (st\<lparr>graph := removeLink (graph st) l\<rparr>) = nameToId st"
  by simp

lemma nodes_removeLink [simp]:
  "nodes (graph (st\<lparr>graph := removeLink (graph st) l\<rparr>)) = nodes (graph st)"
  by (simp add: removeLink_def)

text \<open>Nothing a synchronizer step does removes a node or a name.\<close>

lemma steps_grow:
  "steps W st st' \<Longrightarrow>
     ids st \<subseteq> ids st' \<and>
     length (nodes (graph st)) \<le> length (nodes (graph st')) \<and>
     fst ` set (nameToId st) \<subseteq> fst ` set (nameToId st')"
proof (induction rule: steps.induct)
  case (steps_node st1 nd)
  then show ?case
    by (auto simp: ids_addOrGetNode addOrGetNode_nameToId addOrGetNode_nodes dom_update
        length_update)
qed auto

lemma steps_stable:
  "steps W st st' \<Longrightarrow> map_of (nameToId st) l = Some i \<Longrightarrow> map_of (nameToId st') l = Some i"
proof (induction rule: steps.induct)
  case (steps_node st1 nd)
  then show ?case
    by (auto simp: addOrGetNode_nameToId addOrGetNode_fst update_conv')
qed auto

definition sourceLabels :: "LinkRecord \<Rightarrow> string list" where
  "sourceLabels r = map fst r"

definition targetLabels :: "LinkRecord \<Rightarrow> string list" where
  "targetLabels r = concat (map (\<lambda>e. map fst (snd e)) r)"

definition cacheWrites :: "MetadataCache \<Rightarrow> GraphNode set" where
  "cacheWrites mc =
     (\<lambda>t. \<lparr>label = t, resolved = True\<rparr>) `
        set (sourceLabels (resolvedLinks mc) @ targetLabels (resolvedLinks mc) @
             sourceLabels (unresolvedLinks mc)) \<union>
     (\<lambda>t. \<lparr>label = t, resolved = False\<rparr>) ` set (targetLabels (unresolvedLinks mc))"

lemma sourceLabels_simps [simp]:
  "sourceLabels [] = []" "sourceLabels (e # ls) = fst e # sourceLabels ls"
  by (simp_all add: sourceLabels_def)

lemma targetLabels_simps [simp]:
  "targetLabels [] = []" "targetLabels (e # ls) = map fst (snd e) @ targetLabels ls"
  by (simp_all add: targetLabels_def)

lemma addLinks_targets_steps:
  "s \<in> ids st \<Longrightarrow> (\<lambda>t. \<lparr>label = t, resolved = r\<rparr>) ` fst ` set ts \<subseteq> W \<Longrightarrow>
     steps W st (addLinks_targets r s st ts)"
proof (induction ts arbitrary: st)
  case Nil
  then show ?case by (simp add: steps_refl)
next
  case (Cons e ts)
  obtain t w where e: "e = (t, w)" by (cases e)
  define nd where "nd = \<lparr>label = t, resolved = r\<rparr>"
  define st1 where "st1 = link (snd (addOrGetNode st nd)) s (fst (addOrGetNode st nd))"
  have ndW: "nd \<in> W" using Cons.prems(2) by (auto simp: e nd_def)
  have a: "steps W st (snd (addOrGetNode st nd))"
    by (rule steps_node [OF steps_refl ndW])
  have b: "steps W st st1"
    unfolding st1_def using Cons.prems(1)
    by (intro steps_link [OF a]) (auto simp: ids_addOrGetNode)
  have "s \<in> ids st1" using Cons.prems(1) by (simp add: st1_def ids_addOrGetNode)
  moreover have "(\<lambda>t. \<lparr>label = t, resolved = r\<rparr>) ` fst ` set ts \<subseteq> W"
    using Cons.prems(2) by auto
  ultimately have "steps W st1 (addLinks_targets r s st1 ts)" by (rule Cons.IH)
  then have "steps W st (addLinks_targets r s st1 ts)" using b by (rule steps_trans)
  then show ?case by (simp add: e st1_def nd_def split_beta)
qed

lemma addLinks_steps:
  "(\<lambda>t. \<lparr>label = t, resolved = True\<rparr>) ` set (sourceLabels ls) \<subseteq> W \<Longrightarrow>
   (\<lambda>t. \<lparr>label = t, resolved = r\<rparr>) ` set (targetLabels ls) \<subseteq> W \<Longrightarrow>
     steps W st (addLinks st ls r)"
proof (induction ls arbitrary: st)
  case Nil
  then show ?case by (simp add: steps_refl)
next
  case (Cons e ls)
  obtain sf ts where e: "e = (sf, ts)" by (cases e)
  define nd where "nd = \<lparr>label = sf, resolved = True\<rparr>"
  define st1 where "st1 = snd (addOrGetNode st nd)"
  define st2 where "st2 = addLinks_targets r (fst (addOrGetNode st nd)) st1 ts"
  have ndW: "nd \<in> W" using Cons.prems(1) by (auto simp: e nd_def)
  have a: "steps W st st1"
    unfolding st1_def by (rule steps_node [OF steps_refl ndW])
  have "steps W st1 st2"
    unfolding st2_def using Cons.prems(2)
    by (intro addLinks_targets_steps) (auto simp: st1_def ids_addOrGetNode e)
  then have b: "steps W st st2" using a by (rule steps_trans)
  have "steps W st2 (addLinks st2 ls r)"
    using Cons.prems by (intro Cons.IH) auto
  then have "steps W st (addLinks st2 ls r)" using b by (rule steps_trans)
  then show ?case by (simp add: e st2_def st1_def nd_def split_beta)
qed

lemma fromMetadataCache_steps: "steps (cacheWrites mc) st (fromMetadataCache st mc)"
  unfolding fromMetadataCache_def
  by (rule steps_trans [OF addLinks_steps addLinks_steps]) (auto simp: cacheWrites_def)

lemma link_idem: "(if \<not> hasLink (graph st) a b then link st a b else st) = link st a b"
  by (simp add: link_def)

lemma syncTargets_eq: "syncTargets r s st (map fst ts) = addLinks_targets r s st ts"
  by (induction ts arbitrary: st) (auto simp: link_idem split_beta)

lemma targetsOf_labels:
  "fst ` set (targetsOf r l) \<subseteq> set (targetLabels r)"
proof (cases "map_of r l")
  case None
  then show ?thesis by (simp add: targetsOf_def)
next
  case (Some ts)
  then have "(l, ts) \<in> set r" by (rule map_of_SomeD)
  then show ?thesis using Some by (force simp: targetsOf_def targetLabels_def)
qed

lemma nodeHandler_steps:
  "steps W st0 (st\<lparr>graph := g\<rparr>) \<Longrightarrow>
     steps W st0 (st\<lparr>graph := foldl (nodeHandler al) g ls\<rparr>)"
proof (induction ls arbitrary: g)
  case Nil
  then show ?case by simp
next
  case (Cons l ls)
  have "steps W st0 (st\<lparr>graph := nodeHandler al g l\<rparr>)"
    using Cons.prems steps_unlink [OF Cons.prems, of "fst l"]
    by (auto simp: nodeHandler_def split: option.splits)
  then show ?case using Cons.IH by simp
qed

lemma syncNode_steps: "steps (cacheWrites mc) st (syncNode mc st s)"
proof (cases "getNode (graph st) s")
  case None
  then show ?thesis by (simp add: syncNode_def steps_refl)
next
  case (Some source)
  then have s: "s \<in> ids st"
    by (auto simp: getNode_def ids_def dest!: map_of_SomeD intro: rev_image_eqI)
  define rt where "rt = targetsOf (resolvedLinks mc) (label source)"
  define ut where "ut = targetsOf (unresolvedLinks mc) (label source)"
  define st1 where "st1 = addLinks_targets True s st rt"
  define st2 where "st2 = addLinks_targets False s st1 ut"
  have a: "steps (cacheWrites mc) st st1"
    unfolding st1_def using s targetsOf_labels [of "resolvedLinks mc" "label source"]
    by (intro addLinks_targets_steps) (auto simp: rt_def cacheWrites_def)
  have "s \<in> ids st1" using steps_grow [OF a] s by auto
  then have "steps (cacheWrites mc) st1 st2"
    unfolding st2_def using targetsOf_labels [of "unresolvedLinks mc" "label source"]
    by (intro addLinks_targets_steps) (auto simp: ut_def cacheWrites_def)
  then have b: "steps (cacheWrites mc) st st2" using a by (rule steps_trans)
  have "steps (cacheWrites mc) st (st2\<lparr>graph := graph st2\<rparr>)" using b by simp
  then have "steps (cacheWrites mc) st
      (st2\<lparr>graph := forEachLinkedNode (graph st2) s (nodeHandler (AList.merge rt ut))\<rparr>)"
    unfolding forEachLinkedNode_def by (rule nodeHandler_steps)
  then show ?thesis
    by (simp add: syncNode_def Some Let_def syncTargets_eq st2_def st1_def rt_def ut_def)
qed

lemma syncNodes_steps: "steps (cacheWrites mc) st (foldl (syncNode mc) st is)"
proof (induction "is" arbitrary: st)
  case Nil
  then show ?case by (simp add: steps_refl)
next
  case (Cons i "is")
  show ?case
    using steps_trans [OF Cons.IH [of "syncNode mc st i"] syncNode_steps [of mc st i]] by simp
qed

lemma syncWithCache_steps: "steps (cacheWrites mc) st (syncWithCache st mc)"
  unfolding syncWithCache_def Let_def
  by (rule steps_trans [OF syncNodes_steps fromMetadataCache_steps])

datatype call =
    AddOrGetNode GraphNode
  | FromMetadataCache MetadataCache
  | SyncWithCache MetadataCache

fun call_apply :: "Graph3DLayout \<Rightarrow> call \<Rightarrow> Graph3DLayout" where
  "call_apply st (AddOrGetNode nd) = snd (addOrGetNode st nd)"
| "call_apply st (FromMetadataCache mc) = fromMetadataCache st mc"
| "call_apply st (SyncWithCache mc) = syncWithCache st mc"

definition run :: "Graph3DLayout \<Rightarrow> call list \<Rightarrow> Graph3DLayout" where
  "run st cs = foldl call_apply st cs"

lemma call_steps: "steps UNIV st (call_apply st c)"
proof (cases c)
  case (AddOrGetNode nd)
  then show ?thesis using steps_node [OF steps_refl UNIV_I] by simp
next
  case (FromMetadataCache mc)
  then show ?thesis using steps_mono [OF fromMetadataCache_steps subset_UNIV] by simp
next
  case (SyncWithCache mc)
  then show ?thesis using steps_mono [OF syncWithCache_steps subset_UNIV] by simp
qed

lemma run_steps: "steps UNIV st (run st cs)"
  unfolding run_def
proof (induction cs arbitrary: st)
  case Nil
  then show ?case by (simp add: steps_refl)
next
  case (Cons c cs)
  show ?case
    using steps_trans [OF Cons.IH [of "call_apply st c"] call_steps [of st c]] by simp
qed

lemma run_consistent: "consistent st \<Longrightarrow> consistent (run st cs)"
  by (rule steps_consistent [OF run_steps])

lemma consistent_inj:
  assumes "consistent st" "map_of (nameToId st) l = Some h" "map_of (nameToId st) l' = Some h"
  shows "l = l'"
proof -
  have "map_option label (map_of (nodes (graph st)) h) = Some l"
       "map_option label (map_of (nodes (graph st)) h) = Some l'"
    using assms unfolding consistent_alt by blast+
  then show ?thesis by simp
qed

lemma consistent_handle_bound:
  assumes "consistent st" "map_of (nameToId st) l = Some h"
  shows "h < getNodeCount (graph st)"
proof -
  have "map_option label (map_of (nodes (graph st)) h) = Some l"
    using assms unfolding consistent_alt by blast
  then have "h \<in> ids st"
    using map_of_eq_None_iff [of "nodes (graph st)" h] by (auto simp: ids_def)
  then show ?thesis using consistent_ids [OF assms(1)] by (simp add: getNodeCount_def)
qed

text \<open>
  C10. No synchronizer operation removes a node or a label-to-handle entry: across every
  sequence of addOrGetNode, fromMetadataCache and syncWithCache calls the node ids and
  the keys of nameToId only grow, and the node count never decreases.
\<close>

theorem nodes_never_removed:
  "ids st \<subseteq> ids (run st cs) \<and>
   getNodeCount (graph st) \<le> getNodeCount (graph (run st cs)) \<and>
   fst ` set (nameToId st) \<subseteq> fst ` set (nameToId (run st cs))"
  using steps_grow [OF run_steps, of st cs] by (simp add: getNodeCount_def)

text \<open>
  C4. Handle stability and append-only allocation: across every sequence of synchronizer
  calls a label keeps the handle it had; the label-to-handle map stays one-to-one;
  addOrGetNode on a label that is not yet present returns the current node count, which
  is the handle of no present label; and addOrGetNode always returns the handle that the
  label is mapped to afterwards.
\<close>

theorem handle_stability:
  assumes "consistent st"
  shows "(\<forall>l h. map_of (nameToId st) l = Some h \<longrightarrow>
              map_of (nameToId (run st cs)) l = Some h) \<and>
         (\<forall>l l' h. map_of (nameToId (run st cs)) l = Some h \<and>
                 map_of (nameToId (run st cs)) l' = Some h \<longrightarrow> l = l') \<and>
         (map_of (nameToId st) (label nd) = None \<longrightarrow>
              fst (addOrGetNode st nd) = getNodeCount (graph st) \<and>
              (\<forall>l. map_of (nameToId st) l \<noteq> Some (getNodeCount (graph st)))) \<and>
         map_of (nameToId (snd (addOrGetNode st nd))) (label nd) = Some (fst (addOrGetNode st nd))"
proof (intro conjI allI impI)
  fix l h assume "map_of (nameToId st) l = Some h"
  then show "map_of (nameToId (run st cs)) l = Some h"
    using steps_stable [OF run_steps] by blast
next
  fix l l' h
  assume "map_of (nameToId (run st cs)) l = Some h \<and> map_of (nameToId (run st cs)) l' = Some h"
  then show "l = l'"
    using consistent_inj [OF steps_consistent [OF run_steps assms]] by blast
next
  assume "map_of (nameToId st) (label nd) = None"
  then show "fst (addOrGetNode st nd) = getNodeCount (graph st)"
    by (simp add: addOrGetNode_fst getNodeCount_def)
next
  fix l
  show "map_of (nameToId st) l \<noteq> Some (getNodeCount (graph st))"
    using consistent_handle_bound [OF assms, of l] by fastforce
next
  show "map_of (nameToId (snd (addOrGetNode st nd))) (label nd) = Some (fst (addOrGetNode st nd))"
    by (simp add: addOrGetNode_nameToId update_conv')
qed

definition snapshotAB :: MetadataCache where
  "snapshotAB = \<lparr>resolvedLinks = [(''A'', [(''B'', 1)])], unresolvedLinks = []\<rparr>"

definition snapshotBC :: MetadataCache where
  "snapshotBC = \<lparr>resolvedLinks = [(''B'', [(''C'', 1)])], unresolvedLinks = [(''A'', [(''X'', 2)])]\<rparr>"

theorem handle_stability_witness:
  "consistent (syncWithCache newLayout snapshotAB) \<and>
   map_of (nameToId (syncWithCache newLayout snapshotAB)) ''B'' = Some 1 \<and>
   map_of (nameToId (run (syncWithCache newLayout snapshotAB)
      [SyncWithCache snapshotBC, AddOrGetNode \<lparr>label = ''Z'', resolved = True\<rparr>])) ''B'' = Some 1 \<and>
   fst (addOrGetNode (syncWithCache newLayout snapshotAB) \<lparr>label = ''C'', resolved = True\<rparr>) = 2"
proof -
  have c: "consistent (syncWithCache newLayout snapshotAB)"
    by code_simp
  have b: "map_of (nameToId (syncWithCache newLayout snapshotAB)) ''B'' = Some 1"
    by code_simp
  have n: "map_of (nameToId (syncWithCache newLayout snapshotAB))
             (label \<lparr>label = ''C'', resolved = True\<rparr>) = None"
    by code_simp
  have g: "getNodeCount (graph (syncWithCache newLayout snapshotAB)) = 2"
    by code_simp
  show ?thesis
    using c b n g handle_stability [OF c,
        of "[SyncWithCache snapshotBC, AddOrGetNode \<lparr>label = ''Z'', resolved = True\<rparr>]"
           "\<lparr>label = ''C'', resolved = True\<rparr>"]
    by simp
qed

subsection \<open>The link table under link and removeLink\<close>

definition linkL :: "(LinkId \<times> nat) list \<Rightarrow> LinkId \<Rightarrow> (LinkId \<times> nat) list" where
  "linkL L p = (if p \<in> fst ` set L then L else L @ [(p, 2 * length L)])"

lemma update_fresh: "k \<notin> fst ` set al \<Longrightarrow> AList.update k v al = al @ [(k, v)]"
  by (induction al) auto

lemma link_links: "links (graph (link st a b)) = linkL (links (graph st)) (a, b)"
  by (auto simp: link_def linkL_def hasLink_def addLink_def getLinkCount_def update_fresh
      map_of_eq_None_iff)

lemma linkL_keys: "fst ` set (linkL L p) = insert p (fst ` set L)"
  by (auto simp: linkL_def)

lemma foldl_linkL_keys: "fst ` set (foldl linkL L ps) = fst ` set L \<union> set ps"
  by (induction ps arbitrary: L) (auto simp: linkL_keys)

lemma foldl_linkL_known: "set ps \<subseteq> fst ` set L \<Longrightarrow> foldl linkL L ps = L"
  by (induction ps arbitrary: L) (auto simp: linkL_def)

lemma linkL_map_of: "p \<in> fst ` set L \<Longrightarrow> map_of (linkL L q) p = map_of L p"
  by (auto simp: linkL_def map_add_dom_app_simps dom_map_of_conv_image_fst)

lemma foldl_linkL_map_of: "p \<in> fst ` set L \<Longrightarrow> map_of (foldl linkL L ps) p = map_of L p"
proof (induction ps arbitrary: L)
  case Nil
  then show ?case by simp
next
  case (Cons q ps)
  have "p \<in> fst ` set (linkL L q)" using Cons.prems by (simp add: linkL_keys)
  then show ?case using Cons.IH [of "linkL L q"] Cons.prems by (simp add: linkL_map_of)
qed

lemma foldl_linkL_filter:
  "(\<forall>p\<in>set ps. p \<notin> fst ` set L \<longrightarrow> \<not> K p) \<Longrightarrow>
     filter (\<lambda>e. K (fst e)) (foldl linkL L ps) = filter (\<lambda>e. K (fst e)) L"
proof (induction ps arbitrary: L)
  case Nil
  then show ?case by simp
next
  case (Cons q ps)
  have a: "filter (\<lambda>e. K (fst e)) (linkL L q) = filter (\<lambda>e. K (fst e)) L"
    using Cons.prems by (auto simp: linkL_def)
  have "\<forall>p\<in>set ps. p \<notin> fst ` set (linkL L q) \<longrightarrow> \<not> K p"
    using Cons.prems by (auto simp: linkL_keys)
  then show ?case using Cons.IH [of "linkL L q"] a by simp
qed

lemma filter_keys: "fst ` set (filter (\<lambda>e. K (fst e)) L) = {p \<in> fst ` set L. K p}"
  by auto

text \<open>Re-adding, then pruning again, the links that a pruning pass has dropped changes nothing.\<close>

lemma relink_filter:
  "filter (\<lambda>e. K (fst e)) (foldl linkL (filter (\<lambda>e. K (fst e)) (foldl linkL L ps)) ps)
     = filter (\<lambda>e. K (fst e)) (foldl linkL L ps)"
proof -
  have "\<forall>p\<in>set ps. p \<notin> fst ` set (filter (\<lambda>e. K (fst e)) (foldl linkL L ps)) \<longrightarrow> \<not> K p"
    unfolding filter_keys foldl_linkL_keys by auto
  then show ?thesis by (simp add: foldl_linkL_filter)
qed

subsection \<open>The links that fromMetadataCache adds\<close>

definition handle :: "Graph3DLayout \<Rightarrow> string \<Rightarrow> NodeId" where
  "handle st l = the (map_of (nameToId st) l)"

definition idPairs :: "Graph3DLayout \<Rightarrow> LinkRecord \<Rightarrow> LinkId list" where
  "idPairs st r =
     concat (map (\<lambda>e. map (\<lambda>t. (handle st (fst e), handle st (fst t))) (snd e)) r)"

lemma idPairs_simps [simp]:
  "idPairs st [] = []"
  "idPairs st (e # r) = map (\<lambda>t. (handle st (fst e), handle st (fst t))) (snd e) @ idPairs st r"
  by (simp_all add: idPairs_def)

lemma addOrGetNode_known:
  "map_of (nameToId (snd (addOrGetNode st nd))) (label nd) = Some (fst (addOrGetNode st nd))"
  by (simp add: addOrGetNode_nameToId update_conv')

lemma steps_handle:
  "steps W st st' \<Longrightarrow> map_of (nameToId st) l = Some i \<Longrightarrow> handle st' l = i"
  by (simp add: handle_def steps_stable)

lemma addLinks_targets_links:
  assumes "steps UNIV (addLinks_targets r s st ts) stf" "s \<in> ids st"
  shows "links (graph (addLinks_targets r s st ts)) =
           foldl linkL (links (graph st)) (map (\<lambda>t. (s, handle stf (fst t))) ts)"
  using assms
proof (induction ts arbitrary: st)
  case Nil
  then show ?case by simp
next
  case (Cons e ts)
  obtain t w where e: "e = (t, w)" by (cases e)
  define nd where "nd = \<lparr>label = t, resolved = r\<rparr>"
  define st1 where "st1 = link (snd (addOrGetNode st nd)) s (fst (addOrGetNode st nd))"
  have unf: "addLinks_targets r s st (e # ts) = addLinks_targets r s st1 ts"
    by (simp add: e st1_def nd_def split_beta)
  have fin: "steps UNIV (addLinks_targets r s st1 ts) stf" using Cons.prems unf by simp
  have s1: "s \<in> ids st1" using Cons.prems(2) by (simp add: st1_def ids_addOrGetNode)
  have "map_of (nameToId st1) t = Some (fst (addOrGetNode st nd))"
    using addOrGetNode_known [of st nd] by (simp add: st1_def nd_def)
  moreover have "steps UNIV st1 stf"
    by (rule steps_trans [OF fin addLinks_targets_steps [OF s1 subset_UNIV]])
  ultimately have h: "handle stf t = fst (addOrGetNode st nd)" by (rule steps_handle [rotated])
  have "links (graph st1) = linkL (links (graph st)) (s, handle stf t)"
    by (simp add: st1_def link_links h)
  then show ?case using Cons.IH [OF fin s1] unf by (simp add: e)
qed

lemma addLinks_links:
  assumes "steps UNIV (addLinks st ls r) stf"
  shows "links (graph (addLinks st ls r)) = foldl linkL (links (graph st)) (idPairs stf ls)"
  using assms
proof (induction ls arbitrary: st)
  case Nil
  then show ?case by simp
next
  case (Cons e ls)
  obtain sf ts where e: "e = (sf, ts)" by (cases e)
  define nd where "nd = \<lparr>label = sf, resolved = True\<rparr>"
  define s where "s = fst (addOrGetNode st nd)"
  define st1 where "st1 = snd (addOrGetNode st nd)"
  define st2 where "st2 = addLinks_targets r s st1 ts"
  have unf: "addLinks st (e # ls) r = addLinks st2 ls r"
    by (simp add: e st2_def st1_def s_def nd_def split_beta)
  have fin: "steps UNIV (addLinks st2 ls r) stf" using Cons.prems unf by simp
  have s1: "s \<in> ids st1" by (simp add: st1_def s_def ids_addOrGetNode)
  have fin2: "steps UNIV st2 stf"
    by (rule steps_trans [OF fin addLinks_steps]) auto
  have "steps UNIV st1 stf"
    unfolding st2_def
    by (rule steps_trans [OF fin2 [unfolded st2_def] addLinks_targets_steps [OF s1 subset_UNIV]])
  moreover have "map_of (nameToId st1) sf = Some s"
    using addOrGetNode_known [of st nd] by (simp add: st1_def s_def nd_def)
  ultimately have h: "handle stf sf = s" by (rule steps_handle)
  have "links (graph st2) =
          foldl linkL (links (graph st)) (map (\<lambda>t. (handle stf sf, handle stf (fst t))) ts)"
    using addLinks_targets_links [OF fin2 [unfolded st2_def] s1] by (simp add: st2_def st1_def h)
  then show ?case using Cons.IH [OF fin] unf by (simp add: e)
qed

lemma fromMetadataCache_links:
  assumes "steps UNIV (fromMetadataCache st mc) stf"
  shows "links (graph (fromMetadataCache st mc)) =
           foldl linkL (links (graph st))
             (idPairs stf (resolvedLinks mc) @ idPairs stf (unresolvedLinks mc))"
proof -
  have a: "steps UNIV (addLinks st (resolvedLinks mc) True) stf"
    using assms unfolding fromMetadataCache_def
    by (rule steps_trans [OF _ addLinks_steps]) auto
  show ?thesis
    using addLinks_links [OF assms [unfolded fromMetadataCache_def]] addLinks_links [OF a]
    by (simp add: fromMetadataCache_def)
qed

text \<open>Every label that a step writes is a key of nameToId from then on.\<close>

lemma addLinks_targets_known:
  "t \<in> fst ` set ts \<Longrightarrow> s \<in> ids st \<Longrightarrow>
     map_of (nameToId (addLinks_targets r s st ts)) t \<noteq> None"
proof (induction ts arbitrary: st)
  case Nil
  then show ?case by simp
next
  case (Cons e ts)
  obtain t' w where e: "e = (t', w)" by (cases e)
  define nd where "nd = \<lparr>label = t', resolved = r\<rparr>"
  define st1 where "st1 = link (snd (addOrGetNode st nd)) s (fst (addOrGetNode st nd))"
  have unf: "addLinks_targets r s st (e # ts) = addLinks_targets r s st1 ts"
    by (simp add: e st1_def nd_def split_beta)
  have s1: "s \<in> ids st1" using Cons.prems(2) by (simp add: st1_def ids_addOrGetNode)
  show ?case
  proof (cases "t = t'")
    case True
    have "map_of (nameToId st1) t = Some (fst (addOrGetNode st nd))"
      using addOrGetNode_known [of st nd] True by (simp add: st1_def nd_def)
    then show ?thesis
      using steps_stable [OF addLinks_targets_steps [OF s1 subset_UNIV, of r ts]] unf by simp
  next
    case False
    then have "t \<in> fst ` set ts" using Cons.prems(1) by (auto simp: e)
    then show ?thesis using Cons.IH [OF _ s1] unf by simp
  qed
qed

lemma addLinks_known:
  "t \<in> set (sourceLabels ls @ targetLabels ls) \<Longrightarrow>
     map_of (nameToId (addLinks st ls r)) t \<noteq> None"
proof (induction ls arbitrary: st)
  case Nil
  then show ?case by simp
next
  case (Cons e ls)
  obtain sf ts where e: "e = (sf, ts)" by (cases e)
  define nd where "nd = \<lparr>label = sf, resolved = True\<rparr>"
  define s where "s = fst (addOrGetNode st nd)"
  define st1 where "st1 = snd (addOrGetNode st nd)"
  define st2 where "st2 = addLinks_targets r s st1 ts"
  have unf: "addLinks st (e # ls) r = addLinks st2 ls r"
    by (simp add: e st2_def st1_def s_def nd_def split_beta)
  have s1: "s \<in> ids st1" by (simp add: st1_def s_def ids_addOrGetNode)
  have rest: "steps UNIV st2 (addLinks st2 ls r)" by (rule addLinks_steps) auto
  consider "t = sf" | "t \<in> fst ` set ts" | "t \<in> set (sourceLabels ls @ targetLabels ls)"
    using Cons.prems by (auto simp: e)
  then show ?case
  proof cases
    case 1
    have "map_of (nameToId st1) t = Some s"
      using addOrGetNode_known [of st nd] 1 by (simp add: st1_def s_def nd_def)
    then have "map_of (nameToId st2) t = Some s"
      unfolding st2_def by (rule steps_stable [OF addLinks_targets_steps [OF s1 subset_UNIV]])
    then show ?thesis using steps_stable [OF rest] unf by simp
  next
    case 2
    then obtain i where "map_of (nameToId st2) t = Some i"
      using addLinks_targets_known [OF 2 s1, of r] by (auto simp: st2_def)
    then show ?thesis using steps_stable [OF rest] unf by simp
  next
    case 3
    then show ?thesis using Cons.IH unf by simp
  qed
qed

definition cacheLabels :: "MetadataCache \<Rightarrow> string list" where
  "cacheLabels mc =
     sourceLabels (resolvedLinks mc) @ targetLabels (resolvedLinks mc) @
     sourceLabels (unresolvedLinks mc) @ targetLabels (unresolvedLinks mc)"

lemma fromMetadataCache_known:
  assumes "t \<in> set (cacheLabels mc)"
  shows "map_of (nameToId (fromMetadataCache st mc)) t \<noteq> None"
proof -
  consider "t \<in> set (sourceLabels (resolvedLinks mc) @ targetLabels (resolvedLinks mc))"
    | "t \<in> set (sourceLabels (unresolvedLinks mc) @ targetLabels (unresolvedLinks mc))"
    using assms by (auto simp: cacheLabels_def)
  then show ?thesis
  proof cases
    case 1
    then obtain i where "map_of (nameToId (addLinks st (resolvedLinks mc) True)) t = Some i"
      using addLinks_known [OF 1, of st True] by auto
    then show ?thesis
      using steps_stable [OF addLinks_steps [OF subset_UNIV subset_UNIV]]
      by (simp add: fromMetadataCache_def)
  next
    case 2
    then show ?thesis using addLinks_known [OF 2] by (simp add: fromMetadataCache_def)
  qed
qed

lemma cacheWrites_labels: "nd \<in> cacheWrites mc \<Longrightarrow> label nd \<in> set (cacheLabels mc)"
  by (auto simp: cacheWrites_def cacheLabels_def)

subsection \<open>Steps that only rewrite resolved flags\<close>

definition labels :: "Graph3DLayout \<Rightarrow> (NodeId \<times> string) list" where
  "labels st = map (\<lambda>e. (fst e, label (snd e))) (nodes (graph st))"

definition labelAt :: "Graph3DLayout \<Rightarrow> NodeId \<Rightarrow> string option" where
  "labelAt st i = map_option label (getNode (graph st) i)"

lemma labelAt_labels: "labelAt st i = map_of (labels st) i"
  by (simp add: labelAt_def labels_def getNode_def map_of_map [unfolded split_def] )

lemma map_update_same:
  "map_of al k = Some v \<Longrightarrow> f v' = f v \<Longrightarrow>
     map (\<lambda>e. (fst e, f (snd e))) (AList.update k v' al) = map (\<lambda>e. (fst e, f (snd e))) al"
  by (induction al) (auto split: if_splits)

lemma addOrGetNode_quiet:
  assumes "consistent st" "map_of (nameToId st) (label nd) \<noteq> None"
  shows "nameToId (snd (addOrGetNode st nd)) = nameToId st"
    and "labels (snd (addOrGetNode st nd)) = labels st"
proof -
  obtain i where i: "map_of (nameToId st) (label nd) = Some i" using assms(2) by auto
  then obtain d where d: "map_of (nodes (graph st)) i = Some d" "label d = label nd"
    using assms(1) unfolding consistent_alt by (metis (no_types, lifting) map_option_eq_Some)
  show "nameToId (snd (addOrGetNode st nd)) = nameToId st"
    using i by (simp add: addOrGetNode_nameToId addOrGetNode_fst update_triv)
  show "labels (snd (addOrGetNode st nd)) = labels st"
    using i d by (simp add: labels_def addOrGetNode_nodes addOrGetNode_fst map_update_same)
qed

lemma labels_link [simp]: "labels (link st a b) = labels st"
  by (simp add: labels_def)

lemma labels_removeLink [simp]: "labels (st\<lparr>graph := removeLink (graph st) l\<rparr>) = labels st"
  by (simp add: labels_def)

lemma steps_quiet:
  "steps W st st' \<Longrightarrow> consistent st \<Longrightarrow>
   (\<forall>nd\<in>W. map_of (nameToId st) (label nd) \<noteq> None) \<Longrightarrow>
     nameToId st' = nameToId st \<and> labels st' = labels st"
proof (induction rule: steps.induct)
  case steps_refl
  then show ?case by simp
next
  case (steps_node st1 nd)
  then have "consistent st1" "map_of (nameToId st1) (label nd) \<noteq> None"
    using steps_consistent by auto
  then show ?case using addOrGetNode_quiet [of st1 nd] steps_node by simp
next
  case (steps_link st1 a b)
  then show ?case by simp
next
  case (steps_unlink st1 l)
  then show ?case by simp
qed

subsection \<open>The removal pass\<close>

definition removable :: "(string \<times> int) list \<Rightarrow> Graph \<Rightarrow> NodeId \<Rightarrow> bool" where
  "removable al g b =
     (case getNode g b of None \<Rightarrow> False
      | Some d \<Rightarrow> label d \<noteq> [] \<and> \<not> truthyAt al (label d))"

lemma nodeHandler_alt:
  "nodeHandler al g l = (if removable al g (snd (fst l)) then removeLink g (fst l) else g)"
  by (simp add: nodeHandler_def removable_def split: option.splits)

lemma nodeHandler_nodes [simp]: "nodes (nodeHandler al g l) = nodes g"
  by (simp add: nodeHandler_alt)

lemma removable_nodes: "nodes g' = nodes g \<Longrightarrow> removable al g' = removable al g"
  by (simp add: removable_def getNode_def fun_eq_iff)

lemma removal_nodes [simp]: "nodes (foldl (nodeHandler al) g ls) = nodes g"
  by (induction ls arbitrary: g) auto

lemma removal_links:
  "links (foldl (nodeHandler al) g ls) =
     filter (\<lambda>e. \<not> (\<exists>l\<in>set ls. fst l = fst e \<and> removable al g (snd (fst l)))) (links g)"
proof (induction ls arbitrary: g)
  case Nil
  then show ?case by simp
next
  case (Cons l ls)
  have r: "removable al (nodeHandler al g l) = removable al g"
    by (rule removable_nodes) simp
  have "links (nodeHandler al g l) =
          filter (\<lambda>e. \<not> (fst l = fst e \<and> removable al g (snd (fst l)))) (links g)"
  proof (cases "removable al g (snd (fst l))")
    case True
    have "AList.delete (fst l) (links g) = filter (\<lambda>e. fst l \<noteq> fst e) (links g)"
      by (simp add: AList.delete_eq split_def)
    also have "\<dots> = filter (\<lambda>e. \<not> (fst l = fst e \<and> removable al g (snd (fst l)))) (links g)"
      using True by (intro filter_cong) blast+
    finally show ?thesis using True by (simp only: nodeHandler_alt removeLink_links if_True)
  next
    case False
    then have "filter (\<lambda>e. \<not> (fst l = fst e \<and> removable al g (snd (fst l)))) (links g)
                 = links g"
      by (intro filter_True) blast
    then show ?thesis using False by (simp only: nodeHandler_alt if_False)
  qed
  then show ?case
    using Cons.IH [of "nodeHandler al g l"] by (auto simp: r intro: filter_cong)
qed

lemma forEachLinkedNode_nodes [simp]:
  "nodes (forEachLinkedNode g s (nodeHandler al)) = nodes g"
  by (simp add: forEachLinkedNode_def)

lemma forEachLinkedNode_links:
  "links (forEachLinkedNode g s (nodeHandler al)) =
     filter (\<lambda>e. \<not> (fst (fst e) = s \<and> removable al g (snd (fst e)))) (links g)"
  unfolding forEachLinkedNode_def removal_links
  by (rule filter_cong) auto

subsection \<open>One round of the forEachNode callback\<close>

definition linked :: "Graph3DLayout \<Rightarrow> NodeId \<Rightarrow> (string \<times> int) list \<Rightarrow> bool" where
  "linked st s ts =
     (\<forall>t\<in>fst ` set ts. \<exists>ti. map_of (nameToId st) t = Some ti \<and>
                                (s, ti) \<in> fst ` set (links (graph st)))"

lemma handle_cong: "nameToId st' = nameToId st \<Longrightarrow> handle st' = handle st"
  by (rule ext) (simp add: handle_def)

lemma linked_handle:
  assumes "linked st s ts" "t \<in> set ts"
  shows "(s, handle st (fst t)) \<in> fst ` set (links (graph st))"
proof -
  have "fst t \<in> fst ` set ts" using assms(2) by (rule imageI)
  then obtain ti where "map_of (nameToId st) (fst t) = Some ti"
      "(s, ti) \<in> fst ` set (links (graph st))"
    using assms(1) unfolding linked_def by blast
  then show ?thesis by (simp add: handle_def)
qed

lemma linked_known:
  "linked st s ts \<Longrightarrow>
     \<forall>nd\<in>(\<lambda>t. \<lparr>label = t, resolved = r\<rparr>) ` fst ` set ts.
        map_of (nameToId st) (label nd) \<noteq> None"
  by (auto simp: linked_def)

lemma addLinks_targets_quiet:
  assumes "consistent st" "s \<in> ids st" "linked st s ts"
  shows "nameToId (addLinks_targets r s st ts) = nameToId st"
    and "labels (addLinks_targets r s st ts) = labels st"
    and "links (graph (addLinks_targets r s st ts)) = links (graph st)"
    and "consistent (addLinks_targets r s st ts)"
proof -
  have st: "steps ((\<lambda>t. \<lparr>label = t, resolved = r\<rparr>) ` fst ` set ts) st
              (addLinks_targets r s st ts)"
    by (rule addLinks_targets_steps [OF assms(2)]) simp
  note q = steps_quiet [OF st assms(1) linked_known [OF assms(3)]]
  show n: "nameToId (addLinks_targets r s st ts) = nameToId st" using q by (rule conjunct1)
  show "labels (addLinks_targets r s st ts) = labels st" using q by (rule conjunct2)
  show "consistent (addLinks_targets r s st ts)"
    by (rule steps_consistent [OF st assms(1)])
  have sub: "set (map (\<lambda>t. (s, handle st (fst t))) ts) \<subseteq> fst ` set (links (graph st))"
    using linked_handle [OF assms(3)] by auto
  have e: "links (graph (addLinks_targets r s st ts)) =
             foldl linkL (links (graph st)) (map (\<lambda>t. (s, handle st (fst t))) ts)"
    using addLinks_targets_links [OF steps_refl assms(2), of r ts]
    unfolding handle_cong [OF n] .
  show "links (graph (addLinks_targets r s st ts)) = links (graph st)"
    unfolding e by (rule foldl_linkL_known [OF sub])
qed

definition keepKey :: "MetadataCache \<Rightarrow> Graph3DLayout \<Rightarrow> LinkId \<Rightarrow> bool" where
  "keepKey mc st p =
     (case labelAt st (fst p) of
        None \<Rightarrow> True
      | Some sl \<Rightarrow>
          (case labelAt st (snd p) of
             None \<Rightarrow> True
           | Some tf \<Rightarrow>
               tf = [] \<or>
               truthyAt (AList.merge (targetsOf (resolvedLinks mc) sl)
                                     (targetsOf (unresolvedLinks mc) sl)) tf))"

lemma keepKey_labels:
  assumes "labels st' = labels st"
  shows "keepKey mc st' = keepKey mc st"
proof -
  have l: "labelAt st' = labelAt st" using assms by (simp add: labelAt_labels fun_eq_iff)
  show ?thesis unfolding keepKey_def fun_eq_iff l by simp
qed

lemma labelAt_ids: "labelAt st s = Some sl \<Longrightarrow> s \<in> ids st"
  by (auto simp: labelAt_def getNode_def ids_def dest!: map_of_SomeD intro: rev_image_eqI)

lemma removable_keepKey:
  assumes "labelAt st2 = labelAt st" "labelAt st s = Some sl"
  shows "removable (AList.merge (targetsOf (resolvedLinks mc) sl)
                                (targetsOf (unresolvedLinks mc) sl)) (graph st2) b
           \<longleftrightarrow> \<not> keepKey mc st (s, b)"
proof (cases "labelAt st b")
  case None
  then have "labelAt st2 b = None" using assms(1) by simp
  then have "getNode (graph st2) b = None" by (simp add: labelAt_def)
  then show ?thesis using None assms(2) by (simp add: removable_def keepKey_def)
next
  case (Some tf)
  then have "labelAt st2 b = Some tf" using assms(1) by simp
  then obtain d where "getNode (graph st2) b = Some d" "label d = tf"
    by (auto simp: labelAt_def)
  then show ?thesis using Some assms(2) by (simp add: removable_def keepKey_def)
qed

lemma ids_labels: "ids st = fst ` set (labels st)"
  by (simp add: ids_def labels_def image_image)

lemma syncNode_effect:
  assumes c: "consistent st" and sl: "labelAt st s = Some sl"
    and lr: "linked st s (targetsOf (resolvedLinks mc) sl)"
    and lu: "linked st s (targetsOf (unresolvedLinks mc) sl)"
  shows "nameToId (syncNode mc st s) = nameToId st"
    and "labels (syncNode mc st s) = labels st"
    and "links (graph (syncNode mc st s)) =
           filter (\<lambda>e. fst (fst e) = s \<longrightarrow> keepKey mc st (fst e)) (links (graph st))"
proof -
  obtain source where src: "getNode (graph st) s = Some source" "label source = sl"
    using sl by (auto simp: labelAt_def)
  have s: "s \<in> ids st" by (rule labelAt_ids [OF sl])
  define rt where "rt = targetsOf (resolvedLinks mc) sl"
  define ut where "ut = targetsOf (unresolvedLinks mc) sl"
  define st1 where "st1 = addLinks_targets True s st rt"
  define st2 where "st2 = addLinks_targets False s st1 ut"
  have lr': "linked st s rt" using lr by (simp add: rt_def)
  have n1: "nameToId st1 = nameToId st" and b1: "labels st1 = labels st"
    and k1: "links (graph st1) = links (graph st)" and c1: "consistent st1"
    unfolding st1_def
    by (rule addLinks_targets_quiet(1) [OF c s lr'], rule addLinks_targets_quiet(2) [OF c s lr'],
        rule addLinks_targets_quiet(3) [OF c s lr'], rule addLinks_targets_quiet(4) [OF c s lr'])
  have s1: "s \<in> ids st1" using s by (simp add: ids_labels b1)
  have lu1: "linked st1 s ut" using lu by (simp add: linked_def ut_def n1 k1)
  have n2: "nameToId st2 = nameToId st1" and b2: "labels st2 = labels st1"
    and k2: "links (graph st2) = links (graph st1)"
    unfolding st2_def
    by (rule addLinks_targets_quiet(1) [OF c1 s1 lu1], rule addLinks_targets_quiet(2) [OF c1 s1 lu1],
        rule addLinks_targets_quiet(3) [OF c1 s1 lu1])
  have unf: "syncNode mc st s =
               st2\<lparr>graph := forEachLinkedNode (graph st2) s (nodeHandler (AList.merge rt ut))\<rparr>"
    by (simp add: syncNode_def src Let_def syncTargets_eq st2_def st1_def rt_def ut_def)
  show "nameToId (syncNode mc st s) = nameToId st" by (simp add: unf n2 n1)
  show "labels (syncNode mc st s) = labels st"
    using b1 b2 by (simp add: unf labels_def)
  have l2: "labelAt st2 = labelAt st" by (simp add: labelAt_labels fun_eq_iff b2 b1)
  have "links (graph (syncNode mc st s)) =
          filter (\<lambda>e. \<not> (fst (fst e) = s \<and>
                      removable (AList.merge rt ut) (graph st2) (snd (fst e))))
            (links (graph st2))"
    by (simp add: unf forEachLinkedNode_links)
  also have "\<dots> = filter (\<lambda>e. fst (fst e) = s \<longrightarrow> keepKey mc st (fst e)) (links (graph st2))"
  proof (rule filter_cong [OF refl])
    fix e :: "LinkId \<times> nat"
    have "removable (AList.merge rt ut) (graph st2) (snd (fst e))
            \<longleftrightarrow> \<not> keepKey mc st (s, snd (fst e))"
      unfolding rt_def ut_def by (rule removable_keepKey [OF l2 sl])
    moreover have "fst (fst e) = s \<Longrightarrow> (s, snd (fst e)) = fst e" by auto
    ultimately show "(\<not> (fst (fst e) = s \<and>
                      removable (AList.merge rt ut) (graph st2) (snd (fst e))))
                   = (fst (fst e) = s \<longrightarrow> keepKey mc st (fst e))"
      by auto
  qed
  finally show "links (graph (syncNode mc st s)) =
           filter (\<lambda>e. fst (fst e) = s \<longrightarrow> keepKey mc st (fst e)) (links (graph st))"
    unfolding k2 k1 .
qed

subsection \<open>The forEachNode loop of syncWithCache\<close>

lemma ids_labelAt: "s \<in> ids st \<Longrightarrow> \<exists>sl. labelAt st s = Some sl"
  using map_of_eq_None_iff [of "nodes (graph st)" s]
  by (auto simp: ids_def labelAt_def getNode_def)

lemma labelAt_cong: "labels st' = labels st \<Longrightarrow> labelAt st' = labelAt st"
  by (simp add: labelAt_labels fun_eq_iff)

lemma linked_filter:
  assumes "linked st s' ts" "nameToId st' = nameToId st" "s' \<noteq> s"
    "links (graph st') = filter (\<lambda>e. fst (fst e) = s \<longrightarrow> K (fst e)) (links (graph st))"
  shows "linked st' s' ts"
  unfolding linked_def
proof
  fix t assume "t \<in> fst ` set ts"
  then obtain ti where ti: "map_of (nameToId st) t = Some ti"
      "(s', ti) \<in> fst ` set (links (graph st))"
    using assms(1) unfolding linked_def by blast
  then have "(s', ti) \<in> fst ` set (links (graph st'))"
    using assms(3) unfolding assms(4) by force
  then show "\<exists>ti. map_of (nameToId st') t = Some ti \<and> (s', ti) \<in> fst ` set (links (graph st'))"
    using ti(1) assms(2) by auto
qed

definition allLinked :: "MetadataCache \<Rightarrow> Graph3DLayout \<Rightarrow> NodeId \<Rightarrow> bool" where
  "allLinked mc st s =
     (\<forall>sl. labelAt st s = Some sl \<longrightarrow>
        linked st s (targetsOf (resolvedLinks mc) sl) \<and>
        linked st s (targetsOf (unresolvedLinks mc) sl))"

lemma syncNodes_effect:
  assumes "consistent st" "distinct is" "set is \<subseteq> ids st" "\<forall>s\<in>set is. allLinked mc st s"
  shows "nameToId (foldl (syncNode mc) st is) = nameToId st \<and>
         labels (foldl (syncNode mc) st is) = labels st \<and>
         links (graph (foldl (syncNode mc) st is)) =
           filter (\<lambda>e. fst (fst e) \<in> set is \<longrightarrow> keepKey mc st (fst e)) (links (graph st))"
  using assms
proof (induction "is" arbitrary: st)
  case Nil
  then show ?case by simp
next
  case (Cons s "is")
  obtain sl where sl: "labelAt st s = Some sl"
    using ids_labelAt [of s st] Cons.prems(3) by auto
  have lk: "linked st s (targetsOf (resolvedLinks mc) sl)"
           "linked st s (targetsOf (unresolvedLinks mc) sl)"
    using Cons.prems(4) sl by (auto simp: allLinked_def)
  define st' where "st' = syncNode mc st s"
  have n: "nameToId st' = nameToId st" and b: "labels st' = labels st"
    and k: "links (graph st') =
              filter (\<lambda>e. fst (fst e) = s \<longrightarrow> keepKey mc st (fst e)) (links (graph st))"
    unfolding st'_def
    by (rule syncNode_effect(1) [OF Cons.prems(1) sl lk],
        rule syncNode_effect(2) [OF Cons.prems(1) sl lk],
        rule syncNode_effect(3) [OF Cons.prems(1) sl lk])
  have c': "consistent st'"
    unfolding st'_def by (rule steps_consistent [OF syncNode_steps Cons.prems(1)])
  have d': "distinct is" and ns: "s \<notin> set is" using Cons.prems(2) by auto
  have i': "set is \<subseteq> ids st'" using Cons.prems(3) by (simp add: ids_labels b)
  have a': "\<forall>s'\<in>set is. allLinked mc st' s'"
  proof
    fix s' assume m: "s' \<in> set is"
    then have ne: "s' \<noteq> s" using ns by auto
    have al: "allLinked mc st s'" using Cons.prems(4) m by simp
    show "allLinked mc st' s'"
      unfolding allLinked_def labelAt_cong [OF b]
      using al linked_filter [OF _ n ne k] unfolding allLinked_def by blast
  qed
  note ih = Cons.IH [OF c' d' i' a']
  have kk: "keepKey mc st' = keepKey mc st" by (rule keepKey_labels [OF b])
  have "links (graph (foldl (syncNode mc) st' is)) =
          filter (\<lambda>e. fst (fst e) \<in> set is \<longrightarrow> keepKey mc st (fst e))
            (filter (\<lambda>e. fst (fst e) = s \<longrightarrow> keepKey mc st (fst e)) (links (graph st)))"
    using ih unfolding kk k by simp
  also have "\<dots> = filter (\<lambda>e. fst (fst e) \<in> set (s # is) \<longrightarrow> keepKey mc st (fst e))
                     (links (graph st))"
    unfolding filter_filter by (rule filter_cong) auto
  finally have "links (graph (foldl (syncNode mc) st' is)) =
      filter (\<lambda>e. fst (fst e) \<in> set (s # is) \<longrightarrow> keepKey mc st (fst e)) (links (graph st))" .
  moreover have "nameToId (foldl (syncNode mc) st' is) = nameToId st" using ih n by simp
  moreover have "labels (foldl (syncNode mc) st' is) = labels st" using ih b by simp
  ultimately show ?case by (simp add: st'_def)
qed

subsection \<open>What syncWithCache leaves in the link table\<close>

lemma idPairs_mem:
  "(sl, ts) \<in> set r \<Longrightarrow> t \<in> set ts \<Longrightarrow> (handle st sl, handle st (fst t)) \<in> set (idPairs st r)"
  unfolding idPairs_def by force

lemma consistent_label_handle:
  assumes "consistent st" "labelAt st s = Some sl"
  shows "map_of (nameToId st) sl = Some s"
proof -
  obtain d where "map_of (nodes (graph st)) s = Some d" "label d = sl"
    using assms(2) by (auto simp: labelAt_def getNode_def)
  then show ?thesis using assms(1) unfolding consistent_alt by blast
qed

lemma targetsOf_mem:
  "(t \<in> set (targetsOf r sl)) \<longrightarrow> (\<exists>ts. (sl, ts) \<in> set r \<and> t \<in> set ts)"
proof (cases "map_of r sl")
  case None
  then show ?thesis by (simp add: targetsOf_def)
next
  case (Some ts)
  then have "(sl, ts) \<in> set r" by (rule map_of_SomeD)
  then show ?thesis using Some by (auto simp: targetsOf_def)
qed

lemma linked_after_links:
  assumes c: "consistent st0" and sl: "labelAt st0 s = Some sl"
    and kn: "\<forall>t\<in>set (targetLabels r). map_of (nameToId st0) t \<noteq> None"
    and ps: "set (idPairs st0 r) \<subseteq> fst ` set (links (graph st0))"
  shows "linked st0 s (targetsOf r sl)"
  unfolding linked_def
proof
  fix t assume "t \<in> fst ` set (targetsOf r sl)"
  then obtain e where e: "e \<in> set (targetsOf r sl)" "fst e = t" by auto
  then obtain ts where ts: "(sl, ts) \<in> set r" "e \<in> set ts"
    using targetsOf_mem [of e r sl] by blast
  have "t \<in> set (targetLabels r)" using ts e(2) by (force simp: targetLabels_def)
  then obtain ti where ti: "map_of (nameToId st0) t = Some ti" using kn by auto
  have "(handle st0 sl, handle st0 t) \<in> set (idPairs st0 r)"
    using idPairs_mem [OF ts, of st0] e(2) by simp
  moreover have "handle st0 sl = s"
    using consistent_label_handle [OF c sl] by (simp add: handle_def)
  moreover have "handle st0 t = ti" using ti by (simp add: handle_def)
  ultimately have "(s, ti) \<in> fst ` set (links (graph st0))" using ps by auto
  then show "\<exists>ti. map_of (nameToId st0) t = Some ti \<and> (s, ti) \<in> fst ` set (links (graph st0))"
    using ti by auto
qed

lemma fromMetadataCache_allLinked:
  assumes "consistent st"
  shows "allLinked mc (fromMetadataCache st mc) s"
proof -
  define st0 where "st0 = fromMetadataCache st mc"
  have c0: "consistent st0"
    unfolding st0_def by (rule steps_consistent [OF fromMetadataCache_steps assms])
  have l0: "links (graph st0) =
              foldl linkL (links (graph st))
                (idPairs st0 (resolvedLinks mc) @ idPairs st0 (unresolvedLinks mc))"
    unfolding st0_def by (rule fromMetadataCache_links [OF steps_refl])
  have p1: "set (idPairs st0 (resolvedLinks mc)) \<subseteq> fst ` set (links (graph st0))"
    and p2: "set (idPairs st0 (unresolvedLinks mc)) \<subseteq> fst ` set (links (graph st0))"
    unfolding l0 foldl_linkL_keys by auto
  have k1: "\<forall>t\<in>set (targetLabels (resolvedLinks mc)). map_of (nameToId st0) t \<noteq> None"
    and k2: "\<forall>t\<in>set (targetLabels (unresolvedLinks mc)). map_of (nameToId st0) t \<noteq> None"
    unfolding st0_def using fromMetadataCache_known [of _ mc st]
    by (auto simp: cacheLabels_def)
  show ?thesis
    unfolding allLinked_def st0_def [symmetric]
    using linked_after_links [OF c0 _ k1 p1] linked_after_links [OF c0 _ k2 p2] by blast
qed

lemma syncWithCache_effect:
  assumes "consistent st"
  shows "nameToId (syncWithCache st mc) = nameToId (fromMetadataCache st mc)"
    and "labels (syncWithCache st mc) = labels (fromMetadataCache st mc)"
    and "links (graph (syncWithCache st mc)) =
           filter (\<lambda>e. keepKey mc (fromMetadataCache st mc) (fst e))
             (links (graph (fromMetadataCache st mc)))"
proof -
  define st0 where "st0 = fromMetadataCache st mc"
  define "is" where "is = map fst (nodes (graph st0))"
  have c0: "consistent st0"
    unfolding st0_def by (rule steps_consistent [OF fromMetadataCache_steps assms])
  have u: "is = [0..<length (nodes (graph st0))]"
    using c0 unfolding consistent_alt is_def by blast
  have d: "distinct is" unfolding u by simp
  have i: "set is \<subseteq> ids st0" by (simp add: is_def ids_def)
  have a: "\<forall>s\<in>set is. allLinked mc st0 s"
    unfolding st0_def using fromMetadataCache_allLinked [OF assms] by blast
  note e = syncNodes_effect [OF c0 d i a]
  have unf: "syncWithCache st mc = foldl (syncNode mc) st0 is"
    by (simp add: syncWithCache_def Let_def st0_def is_def)
  show "nameToId (syncWithCache st mc) = nameToId (fromMetadataCache st mc)"
    using e by (simp add: unf st0_def)
  show "labels (syncWithCache st mc) = labels (fromMetadataCache st mc)"
    using e by (simp add: unf st0_def)
  have "filter (\<lambda>e. fst (fst e) \<in> set is \<longrightarrow> keepKey mc st0 (fst e)) (links (graph st0)) =
        filter (\<lambda>e. keepKey mc st0 (fst e)) (links (graph st0))"
  proof (rule filter_cong [OF refl])
    fix x assume "x \<in> set (links (graph st0))"
    then have "fst (fst x) < length (nodes (graph st0))"
      using c0 unfolding consistent_alt by blast
    then have "fst (fst x) \<in> set is" unfolding u by simp
    then show "(fst (fst x) \<in> set is \<longrightarrow> keepKey mc st0 (fst x)) = keepKey mc st0 (fst x)"
      by simp
  qed
  then show "links (graph (syncWithCache st mc)) =
           filter (\<lambda>e. keepKey mc (fromMetadataCache st mc) (fst e))
             (links (graph (fromMetadataCache st mc)))"
    using e by (simp add: unf st0_def)
qed

lemma idPairs_cong:
  assumes "nameToId st' = nameToId st"
  shows "idPairs st' = idPairs st"
  by (rule ext) (simp add: idPairs_def handle_cong [OF assms])

lemma length_labels: "length (labels st) = getNodeCount (graph st)"
  by (simp add: labels_def getNodeCount_def)

lemma syncWithCache_consistent: "consistent st \<Longrightarrow> consistent (syncWithCache st mc)"
  by (rule steps_consistent [OF syncWithCache_steps])

lemma syncWithCache_twice:
  assumes "consistent st"
  shows "nameToId (syncWithCache (syncWithCache st mc) mc) = nameToId (syncWithCache st mc)"
    and "labels (syncWithCache (syncWithCache st mc) mc) = labels (syncWithCache st mc)"
    and "links (graph (syncWithCache (syncWithCache st mc) mc)) =
           links (graph (syncWithCache st mc))"
proof -
  define st0 where "st0 = fromMetadataCache st mc"
  define st1 where "st1 = syncWithCache st mc"
  define st0' where "st0' = fromMetadataCache st1 mc"
  define st2 where "st2 = syncWithCache st1 mc"
  define ps where "ps = idPairs st0 (resolvedLinks mc) @ idPairs st0 (unresolvedLinks mc)"
  have c1: "consistent st1" unfolding st1_def by (rule syncWithCache_consistent [OF assms])
  have n1: "nameToId st1 = nameToId st0" and b1: "labels st1 = labels st0"
    and k1: "links (graph st1) = filter (\<lambda>e. keepKey mc st0 (fst e)) (links (graph st0))"
    unfolding st1_def st0_def
    by (rule syncWithCache_effect(1) [OF assms], rule syncWithCache_effect(2) [OF assms],
        rule syncWithCache_effect(3) [OF assms])
  have kn: "\<forall>nd\<in>cacheWrites mc. map_of (nameToId st1) (label nd) \<noteq> None"
    unfolding n1 st0_def using fromMetadataCache_known cacheWrites_labels by blast
  have q: "nameToId st0' = nameToId st1 \<and> labels st0' = labels st1"
    unfolding st0'_def by (rule steps_quiet [OF fromMetadataCache_steps c1 kn])
  have n2: "nameToId st2 = nameToId st0'" and b2: "labels st2 = labels st0'"
    and k2: "links (graph st2) = filter (\<lambda>e. keepKey mc st0' (fst e)) (links (graph st0'))"
    unfolding st2_def st0'_def
    by (rule syncWithCache_effect(1) [OF c1], rule syncWithCache_effect(2) [OF c1],
        rule syncWithCache_effect(3) [OF c1])
  have kk: "keepKey mc st0' = keepKey mc st0"
    by (rule keepKey_labels) (simp add: q b1)
  have ip: "idPairs st0' = idPairs st0"
    by (rule idPairs_cong) (simp add: q n1)
  have l0: "links (graph st0) = foldl linkL (links (graph st)) ps"
    unfolding st0_def ps_def by (rule fromMetadataCache_links [OF steps_refl])
  have l0': "links (graph st0') = foldl linkL (links (graph st1)) ps"
    unfolding ps_def ip [symmetric] unfolding st0'_def
    by (rule fromMetadataCache_links [OF steps_refl])
  show "nameToId (syncWithCache (syncWithCache st mc) mc) = nameToId (syncWithCache st mc)"
    using n2 q by (simp add: st2_def st1_def)
  show "labels (syncWithCache (syncWithCache st mc) mc) = labels (syncWithCache st mc)"
    using b2 q by (simp add: st2_def st1_def)
  have "links (graph st2) = links (graph st1)"
    unfolding k2 kk l0' unfolding k1 l0 by (rule relink_filter)
  then show "links (graph (syncWithCache (syncWithCache st mc) mc)) =
           links (graph (syncWithCache st mc))"
    by (simp add: st2_def st1_def)
qed

text \<open>
  C1. Idempotence of incremental sync: a second syncWithCache with the same snapshot,
  right after the first, leaves the node count, the link count, the whole label-to-handle
  map, the label of every node and the link table (endpoints and slot payloads)
  unchanged.
\<close>

theorem syncWithCache_idempotent:
  assumes "consistent st"
  shows "getNodeCount (graph (syncWithCache (syncWithCache st mc) mc)) =
           getNodeCount (graph (syncWithCache st mc)) \<and>
         getLinkCount (graph (syncWithCache (syncWithCache st mc) mc)) =
           getLinkCount (graph (syncWithCache st mc)) \<and>
         nameToId (syncWithCache (syncWithCache st mc) mc) = nameToId (syncWithCache st mc) \<and>
         labels (syncWithCache (syncWithCache st mc) mc) = labels (syncWithCache st mc) \<and>
         links (graph (syncWithCache (syncWithCache st mc) mc)) =
           links (graph (syncWithCache st mc))"
  using syncWithCache_twice [OF assms, of mc]
        length_labels [of "syncWithCache (syncWithCache st mc) mc"]
        length_labels [of "syncWithCache st mc"]
  by (simp add: getLinkCount_def)

theorem syncWithCache_idempotent_witness:
  "consistent (syncWithCache newLayout snapshotAB) \<and>
   nameToId (syncWithCache (syncWithCache (syncWithCache newLayout snapshotAB)
      snapshotBC) snapshotBC) =
   nameToId (syncWithCache (syncWithCache newLayout snapshotAB) snapshotBC) \<and>
   links (graph (syncWithCache (syncWithCache (syncWithCache newLayout snapshotAB)
      snapshotBC) snapshotBC)) =
   links (graph (syncWithCache (syncWithCache newLayout snapshotAB) snapshotBC))"
proof -
  have c: "consistent (syncWithCache newLayout snapshotAB)"
    by code_simp
  show ?thesis
    using c syncWithCache_idempotent [OF c, of snapshotBC] by simp
qed

section \<open>Link slots (C5)\<close>

text \<open>Three snapshots in a row: A links to B and C; then only to C; then to C and D.\<close>

definition snapshot1 :: MetadataCache where
  "snapshot1 = \<lparr>resolvedLinks = [(''A'', [(''B'', 1), (''C'', 1)])], unresolvedLinks = []\<rparr>"

definition snapshot2 :: MetadataCache where
  "snapshot2 = \<lparr>resolvedLinks = [(''A'', [(''C'', 1)])], unresolvedLinks = []\<rparr>"

definition snapshot3 :: MetadataCache where
  "snapshot3 = \<lparr>resolvedLinks = [(''A'', [(''C'', 1), (''D'', 1)])], unresolvedLinks = []\<rparr>"

text \<open>The payloads of the live links, in link order.\<close>

definition slots :: "Graph3DLayout \<Rightarrow> nat list" where
  "slots st = map snd (links (graph st))"

definition evenSlots :: "Graph3DLayout \<Rightarrow> bool" where
  "evenSlots st = list_all even (slots st)"

lemma evenSlots_alt: "evenSlots st = (\<forall>e\<in>set (links (graph st)). even (snd e))"
  by (simp add: evenSlots_def slots_def list_all_iff)

lemma steps_evenSlots: "steps W st st' \<Longrightarrow> evenSlots st \<Longrightarrow> evenSlots st'"
proof (induction rule: steps.induct)
  case steps_refl
  then show ?case by simp
next
  case (steps_node st1 nd)
  then show ?case by (simp add: evenSlots_alt)
next
  case (steps_link st1 a b)
  then have "\<forall>e\<in>set (links (graph st1)). even (snd e)" by (simp add: evenSlots_alt)
  then have "\<forall>e\<in>set (linkL (links (graph st1)) (a, b)). even (snd e)"
    unfolding linkL_def by simp
  then show ?case by (simp add: evenSlots_alt link_links)
next
  case (steps_unlink st1 l)
  then have "\<forall>e\<in>set (links (graph st1)). even (snd e)" by (simp add: evenSlots_alt)
  then have "\<forall>e\<in>set (AList.delete l (links (graph st1))). even (snd e)"
    using set_delete_subset [of l "links (graph st1)"] by blast
  then show ?case by (simp add: evenSlots_alt removeLink_links)
qed

text \<open>
  C5, the part that holds: under every sequence of synchronizer calls every live link's
  payload stays even.
\<close>

theorem slots_even:
  assumes "evenSlots st"
  shows "evenSlots (run st cs)"
  by (rule steps_evenSlots [OF run_steps assms])

theorem slots_even_witness:
  "evenSlots newLayout \<and>
   evenSlots (run newLayout
      [SyncWithCache snapshot1, SyncWithCache snapshot2, SyncWithCache snapshot3])"
proof -
  have e: "evenSlots newLayout" by code_simp
  show ?thesis
    using e slots_even [OF e,
        of "[SyncWithCache snapshot1, SyncWithCache snapshot2, SyncWithCache snapshot3]"]
    by simp
qed

text \<open>
  C5, the part that fails: once a link has been removed, \<open>2 * getLinkCount\<close> hands out
  a slot that a live link still holds. After the three snapshots the links A->C and A->D
  are both live and both carry payload 2.
\<close>

theorem slot_reused_after_removal:
  "links (graph (syncWithCache (syncWithCache (syncWithCache newLayout snapshot1) snapshot2)
      snapshot3)) = [((0, 2), 2), ((0, 3), 2)] \<and>
   \<not> distinct (slots (syncWithCache (syncWithCache (syncWithCache newLayout snapshot1)
      snapshot2) snapshot3))"
  by code_simp

section \<open>Pruning (C3)\<close>

lemma addOrGetNode_labelAt:
  assumes "consistent st" "labelAt st a = Some sl"
  shows "labelAt (snd (addOrGetNode st nd)) a = Some sl"
proof (cases "fst (addOrGetNode st nd) = a")
  case False
  then show ?thesis
    using assms(2) by (simp add: labelAt_def getNode_def addOrGetNode_nodes update_conv')
next
  case True
  have a: "a < length (nodes (graph st))"
    using labelAt_ids [OF assms(2)] consistent_ids [OF assms(1)] by simp
  have "map_of (nameToId st) (label nd) = Some a"
    using True a by (auto simp: addOrGetNode_fst split: option.splits)
  then have "map_option label (map_of (nodes (graph st)) a) = Some (label nd)"
    using assms(1) unfolding consistent_alt by blast
  then have "labelAt st a = Some (label nd)"
    by (simp add: labelAt_def getNode_def)
  then have "label nd = sl" using assms(2) by simp
  then show ?thesis
    using True by (simp add: labelAt_def getNode_def addOrGetNode_nodes update_conv')
qed

lemma labelAt_link [simp]: "labelAt (link st a b) = labelAt st"
  by (simp add: labelAt_def getNode_def fun_eq_iff)

lemma labelAt_removeLink [simp]:
  "labelAt (st\<lparr>graph := removeLink (graph st) l\<rparr>) = labelAt st"
  by (simp add: labelAt_def getNode_def fun_eq_iff)

lemma steps_labelAt:
  "steps W st st' \<Longrightarrow> consistent st \<Longrightarrow> labelAt st a = Some sl \<Longrightarrow> labelAt st' a = Some sl"
proof (induction rule: steps.induct)
  case steps_refl
  then show ?case by simp
next
  case (steps_node st1 nd)
  then have "consistent st1" "labelAt st1 a = Some sl" using steps_consistent by auto
  then show ?case by (rule addOrGetNode_labelAt)
next
  case (steps_link st1 a b)
  then show ?case by simp
next
  case (steps_unlink st1 l)
  then show ?case by simp
qed

lemma map_of_filter_key:
  "K k \<Longrightarrow> map_of (filter (\<lambda>e. K (fst e)) L) k = map_of L k"
  by (induction L) auto

lemma truthyAt_merge:
  assumes "tf \<notin> set objectPrototypeKeys" "\<forall>e\<in>set rt \<union> set ut. snd e \<noteq> 0"
  shows "truthyAt (AList.merge rt ut) tf \<longleftrightarrow> tf \<in> fst ` set rt \<union> fst ` set ut"
proof (cases "map_of (AList.merge rt ut) tf")
  case None
  have "tf \<notin> fst ` set (AList.merge rt ut)"
    using None unfolding map_of_eq_None_iff .
  then have n: "tf \<notin> fst ` set rt \<union> fst ` set ut" by (simp add: dom_merge)
  have "\<not> truthyAt (AList.merge rt ut) tf"
    unfolding truthyAt_def None using assms(1) by simp
  then show ?thesis using n by simp
next
  case (Some w)
  then have "map_of ut tf = Some w \<or> map_of rt tf = Some w"
    by (auto simp: merge_conv' map_add_Some_iff)
  then have "(tf, w) \<in> set rt \<union> set ut" by (auto dest: map_of_SomeD)
  then have "w \<noteq> 0" "tf \<in> fst ` set rt \<union> fst ` set ut" using assms(2) by force+
  then show ?thesis using Some by (simp add: truthyAt_def)
qed

lemma linkedD:
  "linked st s ts \<Longrightarrow> t \<in> fst ` set ts \<Longrightarrow>
     \<exists>ti. map_of (nameToId st) t = Some ti \<and> (s, ti) \<in> fst ` set (links (graph st))"
  unfolding linked_def by blast

text \<open>
  C3 on ordinary input. Take a source node \<open>a\<close> present before the call and a
  node \<open>b\<close> whose label is neither empty nor the name of a property of
  \<open>Object.prototype\<close>, and let all weights that the snapshot lists for the source be
  non-zero. Then after syncWithCache the link \<open>a -> b\<close> exists exactly if the label of
  \<open>b\<close> is a key of the snapshot's resolved or unresolved record for the source, and a
  link that was there before and is still listed keeps its payload.
\<close>

lemma pruning_ordinary_parts:
  assumes c: "consistent st"
    and src: "labelAt st a = Some sl"
    and tgt: "labelAt (syncWithCache st mc) b = Some tf"
    and ne: "tf \<noteq> []" and np: "tf \<notin> set objectPrototypeKeys"
    and w: "\<forall>e\<in>set (targetsOf (resolvedLinks mc) sl) \<union>
               set (targetsOf (unresolvedLinks mc) sl). snd e \<noteq> 0"
  shows "((a, b) \<in> fst ` set (links (graph (syncWithCache st mc)))) =
           (tf \<in> fst ` set (targetsOf (resolvedLinks mc) sl) \<union>
                 fst ` set (targetsOf (unresolvedLinks mc) sl))"
    and "tf \<in> fst ` set (targetsOf (resolvedLinks mc) sl) \<union>
              fst ` set (targetsOf (unresolvedLinks mc) sl) \<longrightarrow>
         map_of (links (graph st)) (a, b) = Some d \<longrightarrow>
         map_of (links (graph (syncWithCache st mc))) (a, b) = Some d"
proof -
  define st0 where "st0 = fromMetadataCache st mc"
  define rt where "rt = targetsOf (resolvedLinks mc) sl"
  define ut where "ut = targetsOf (unresolvedLinks mc) sl"
  have c0: "consistent st0"
    unfolding st0_def by (rule steps_consistent [OF fromMetadataCache_steps c])
  have la: "labelAt st0 a = Some sl"
    unfolding st0_def by (rule steps_labelAt [OF fromMetadataCache_steps c src])
  have eq: "labelAt (syncWithCache st mc) = labelAt st0"
    unfolding st0_def by (rule labelAt_cong [OF syncWithCache_effect(2) [OF c]])
  have lb: "labelAt st0 b = Some tf"
    using tgt unfolding eq .
  have k: "links (graph (syncWithCache st mc)) =
             filter (\<lambda>e. keepKey mc st0 (fst e)) (links (graph st0))"
    unfolding st0_def by (rule syncWithCache_effect(3) [OF c])
  have w': "\<forall>e\<in>set rt \<union> set ut. snd e \<noteq> 0" using w by (simp only: rt_def ut_def)
  have "keepKey mc st0 (a, b) = (tf = [] \<or> truthyAt (AList.merge rt ut) tf)"
    by (simp add: keepKey_def la lb rt_def ut_def)
  then have kk: "keepKey mc st0 (a, b) = (tf \<in> fst ` set rt \<union> fst ` set ut)"
    unfolding truthyAt_merge [OF np w'] using ne by simp
  have pres: "(a, b) \<in> fst ` set (links (graph st0))" if "tf \<in> fst ` set rt \<union> fst ` set ut"
  proof -
    have "allLinked mc st0 a" unfolding st0_def by (rule fromMetadataCache_allLinked [OF c])
    then have "linked st0 a rt" "linked st0 a ut"
      using la by (simp_all add: allLinked_def rt_def ut_def)
    then have "\<exists>ti. map_of (nameToId st0) tf = Some ti \<and>
                  (a, ti) \<in> fst ` set (links (graph st0))"
      using that linkedD [of st0 a rt tf] linkedD [of st0 a ut tf] by (elim UnE) simp_all
    then obtain ti where ti: "map_of (nameToId st0) tf = Some ti"
        "(a, ti) \<in> fst ` set (links (graph st0))"
      by (elim exE conjE)
    have "map_of (nameToId st0) tf = Some b" by (rule consistent_label_handle [OF c0 lb])
    then show ?thesis using ti by simp
  qed
  have "((a, b) \<in> fst ` set (links (graph (syncWithCache st mc)))) =
          ((a, b) \<in> fst ` set (links (graph st0)) \<and> keepKey mc st0 (a, b))"
    unfolding k filter_keys by simp
  also have "\<dots> = (tf \<in> fst ` set rt \<union> fst ` set ut)"
    unfolding kk using pres by blast
  finally show "((a, b) \<in> fst ` set (links (graph (syncWithCache st mc)))) =
           (tf \<in> fst ` set (targetsOf (resolvedLinks mc) sl) \<union>
                 fst ` set (targetsOf (unresolvedLinks mc) sl))"
    by (simp add: rt_def ut_def)
  show "tf \<in> fst ` set (targetsOf (resolvedLinks mc) sl) \<union>
              fst ` set (targetsOf (unresolvedLinks mc) sl) \<longrightarrow>
         map_of (links (graph st)) (a, b) = Some d \<longrightarrow>
         map_of (links (graph (syncWithCache st mc))) (a, b) = Some d"
  proof (intro impI)
    assume t: "tf \<in> fst ` set (targetsOf (resolvedLinks mc) sl) \<union>
                   fst ` set (targetsOf (unresolvedLinks mc) sl)"
      and d: "map_of (links (graph st)) (a, b) = Some d"
    have keep: "keepKey mc st0 (a, b)" using t by (simp add: kk rt_def ut_def)
    have old: "(a, b) \<in> fst ` set (links (graph st))"
      using d map_of_eq_None_iff [of "links (graph st)" "(a, b)"] by auto
    have l0: "links (graph st0) =
                foldl linkL (links (graph st))
                  (idPairs st0 (resolvedLinks mc) @ idPairs st0 (unresolvedLinks mc))"
      unfolding st0_def by (rule fromMetadataCache_links [OF steps_refl])
    have "map_of (links (graph st0)) (a, b) = map_of (links (graph st)) (a, b)"
      unfolding l0 by (rule foldl_linkL_map_of [OF old])
    then have e0: "map_of (links (graph st0)) (a, b) = Some d" using d by simp
    have "map_of (filter (\<lambda>e. keepKey mc st0 (fst e)) (links (graph st0))) (a, b) =
            map_of (links (graph st0)) (a, b)"
      by (rule map_of_filter_key [of "keepKey mc st0", OF keep])
    then show "map_of (links (graph (syncWithCache st mc))) (a, b) = Some d"
      unfolding k e0 .
  qed
qed

theorem pruning_ordinary:
  assumes "consistent st"
    and "labelAt st a = Some sl"
    and "labelAt (syncWithCache st mc) b = Some tf"
    and "tf \<noteq> []" and "tf \<notin> set objectPrototypeKeys"
    and "\<forall>e\<in>set (targetsOf (resolvedLinks mc) sl) \<union>
               set (targetsOf (unresolvedLinks mc) sl). snd e \<noteq> 0"
  shows "(((a, b) \<in> fst ` set (links (graph (syncWithCache st mc)))) =
           (tf \<in> fst ` set (targetsOf (resolvedLinks mc) sl) \<union>
                 fst ` set (targetsOf (unresolvedLinks mc) sl))) \<and>
         (tf \<in> fst ` set (targetsOf (resolvedLinks mc) sl) \<union>
              fst ` set (targetsOf (unresolvedLinks mc) sl) \<longrightarrow>
          map_of (links (graph st)) (a, b) = Some d \<longrightarrow>
          map_of (links (graph (syncWithCache st mc))) (a, b) = Some d)"
  using pruning_ordinary_parts [OF assms] by blast

theorem pruning_ordinary_witness:
  "consistent (syncWithCache newLayout snapshot1) \<and>
   labelAt (syncWithCache newLayout snapshot1) 0 = Some ''A'' \<and>
   labelAt (syncWithCache (syncWithCache newLayout snapshot1) snapshot2) 2 = Some ''C'' \<and>
   map_of (links (graph (syncWithCache newLayout snapshot1))) (0, 2) = Some 2 \<and>
   (0, 2) \<in> fst ` set (links (graph (syncWithCache (syncWithCache newLayout snapshot1) snapshot2))) \<and>
   map_of (links (graph (syncWithCache (syncWithCache newLayout snapshot1) snapshot2))) (0, 2)
     = Some 2"
proof -
  have c: "consistent (syncWithCache newLayout snapshot1)" by code_simp
  have la: "labelAt (syncWithCache newLayout snapshot1) 0 = Some ''A''" by code_simp
  have lb: "labelAt (syncWithCache (syncWithCache newLayout snapshot1) snapshot2) 2 = Some ''C''"
    by code_simp
  have ne: "''C'' \<noteq> []" by simp
  have np: "''C'' \<notin> set objectPrototypeKeys" by code_simp
  have w: "\<forall>e\<in>set (targetsOf (resolvedLinks snapshot2) ''A'') \<union>
               set (targetsOf (unresolvedLinks snapshot2) ''A''). snd e \<noteq> 0"
    by code_simp
  have t: "''C'' \<in> fst ` set (targetsOf (resolvedLinks snapshot2) ''A'') \<union>
                 fst ` set (targetsOf (unresolvedLinks snapshot2) ''A'')"
    by code_simp
  have d: "map_of (links (graph (syncWithCache newLayout snapshot1))) (0, 2) = Some 2"
    by code_simp
  show ?thesis
    using c la lb d t pruning_ordinary [OF c la lb ne np w, of 2] by simp
qed

definition snapshotCtor1 :: MetadataCache where
  "snapshotCtor1 = \<lparr>resolvedLinks = [], unresolvedLinks = [(''a.md'', [(''constructor'', 1)])]\<rparr>"

definition snapshotCtor2 :: MetadataCache where
  "snapshotCtor2 = \<lparr>resolvedLinks = [], unresolvedLinks = [(''a.md'', [])]\<rparr>"

definition snapshotZero :: MetadataCache where
  "snapshotZero = \<lparr>resolvedLinks = [(''a.md'', [(''b.md'', 0)])], unresolvedLinks = []\<rparr>"

text \<open>
  C3 on input that is not ordinary. (1) The unresolved link text \<open>constructor\<close>: note
  \<open>a.md\<close> first links to it, then the link is deleted from the note. The second
  snapshot lists no target for \<open>a.md\<close>, yet the link stays, because
  \<^verbatim>\<open>allTargets["constructor"]\<close> reads the inherited \<open>Object.prototype.constructor\<close>.
  (2) A target listed with weight 0: the addition pass creates the link and the removal
  pass of the same call deletes it, so a listed target has no link.
\<close>

theorem pruning_keeps_stale_link:
  "labelAt (syncWithCache newLayout snapshotCtor1) 0 = Some ''a.md'' \<and>
   labelAt (syncWithCache newLayout snapshotCtor1) 1 = Some ''constructor'' \<and>
   links (graph (syncWithCache newLayout snapshotCtor1)) = [((0, 1), 0)] \<and>
   targetsOf (resolvedLinks snapshotCtor2) ''a.md'' = [] \<and>
   targetsOf (unresolvedLinks snapshotCtor2) ''a.md'' = [] \<and>
   links (graph (syncWithCache (syncWithCache newLayout snapshotCtor1) snapshotCtor2))
     = [((0, 1), 0)] \<and>
   targetsOf (resolvedLinks snapshotZero) ''a.md'' = [(''b.md'', 0)] \<and>
   links (graph (syncWithCache newLayout snapshotZero)) = []"
  by code_simp

section \<open>Resolved flags (C2)\<close>

definition resolvedOf :: "Graph3DLayout \<Rightarrow> string \<Rightarrow> bool option" where
  "resolvedOf st l =
     (case map_of (nameToId st) l of
        None \<Rightarrow> None
      | Some i \<Rightarrow> map_option resolved (getNode (graph st) i))"

lemma resolvedOf_write:
  "resolvedOf (snd (addOrGetNode st nd)) (label nd) = Some (resolved nd)"
  by (simp add: resolvedOf_def addOrGetNode_known getNode_def addOrGetNode_nodes update_conv')

lemma resolvedOf_other:
  assumes "consistent st" "label nd \<noteq> l"
  shows "resolvedOf (snd (addOrGetNode st nd)) l = resolvedOf st l"
proof (cases "map_of (nameToId st) l")
  case None
  then show ?thesis using assms(2)
    by (simp add: resolvedOf_def addOrGetNode_nameToId update_conv')
next
  case (Some i)
  have "fst (addOrGetNode st nd) \<noteq> i"
  proof (cases "map_of (nameToId st) (label nd)")
    case None
    then show ?thesis
      using consistent_handle_bound [OF assms(1) Some]
      by (simp add: addOrGetNode_fst getNodeCount_def)
  next
    case (Some j)
    then show ?thesis
      using consistent_inj [OF assms(1) Some, of l] \<open>map_of (nameToId st) l = Some i\<close> assms(2)
      by (auto simp: addOrGetNode_fst)
  qed
  then show ?thesis using Some assms(2)
    by (simp add: resolvedOf_def addOrGetNode_nameToId update_conv' getNode_def
        addOrGetNode_nodes)
qed

lemma resolvedOf_link [simp]: "resolvedOf (link st a b) l = resolvedOf st l"
  by (simp add: resolvedOf_def getNode_def cong: option.case_cong)

lemma resolvedOf_removeLink [simp]:
  "resolvedOf (st\<lparr>graph := removeLink (graph st) k\<rparr>) l = resolvedOf st l"
  by (simp add: resolvedOf_def getNode_def cong: option.case_cong)

lemma steps_resolved:
  "steps W st st' \<Longrightarrow> consistent st \<Longrightarrow> (\<forall>nd\<in>W. label nd = l \<longrightarrow> resolved nd) \<Longrightarrow>
     resolvedOf st l = Some True \<Longrightarrow> resolvedOf st' l = Some True"
proof (induction rule: steps.induct)
  case steps_refl
  then show ?case by simp
next
  case (steps_node st1 nd)
  then have c1: "consistent st1" and r1: "resolvedOf st1 l = Some True"
    using steps_consistent by auto
  show ?case
  proof (cases "label nd = l")
    case True
    then have "resolved nd" using steps_node by blast
    then show ?thesis using resolvedOf_write [of st1 nd] True by simp
  next
    case False
    then show ?thesis using resolvedOf_other [OF c1 False] r1 by simp
  qed
next
  case (steps_link st1 a b)
  then show ?case by simp
next
  case (steps_unlink st1 k)
  then show ?case by simp
qed

text \<open>A run that writes \<open>nd\<close> at some point.\<close>

definition writesVia :: "GraphNode set \<Rightarrow> GraphNode \<Rightarrow> Graph3DLayout \<Rightarrow> Graph3DLayout \<Rightarrow> bool" where
  "writesVia W nd st st' =
     (\<exists>st1. steps W st st1 \<and> steps W (snd (addOrGetNode st1 nd)) st')"

lemma writesVia_before: "steps W st0 st \<Longrightarrow> writesVia W nd st st' \<Longrightarrow> writesVia W nd st0 st'"
  unfolding writesVia_def using steps_trans by blast

lemma writesVia_after: "writesVia W nd st st' \<Longrightarrow> steps W st' st'' \<Longrightarrow> writesVia W nd st st''"
  unfolding writesVia_def using steps_trans by blast

lemma writesVia_here: "steps W (snd (addOrGetNode st nd)) st' \<Longrightarrow> writesVia W nd st st'"
  unfolding writesVia_def using steps_refl by blast

lemma writesVia_resolved:
  assumes "writesVia W \<lparr>label = l, resolved = True\<rparr> st st'" "consistent st"
    "\<forall>nd\<in>W. label nd = l \<longrightarrow> resolved nd"
  shows "resolvedOf st' l = Some True"
proof -
  obtain st1 where a: "steps W st st1"
    and b: "steps W (snd (addOrGetNode st1 \<lparr>label = l, resolved = True\<rparr>)) st'"
    using assms(1) unfolding writesVia_def by blast
  have c1: "consistent st1" by (rule steps_consistent [OF a assms(2)])
  have c2: "consistent (snd (addOrGetNode st1 \<lparr>label = l, resolved = True\<rparr>))"
    by (rule consistent_addOrGetNode [OF c1])
  have "resolvedOf (snd (addOrGetNode st1 \<lparr>label = l, resolved = True\<rparr>)) l = Some True"
    using resolvedOf_write [of st1 "\<lparr>label = l, resolved = True\<rparr>"] by simp
  then show ?thesis by (rule steps_resolved [OF b c2 assms(3)])
qed

lemma addLinks_targets_via:
  assumes "s \<in> ids st" "t \<in> fst ` set ts"
    "(\<lambda>t. \<lparr>label = t, resolved = r\<rparr>) ` fst ` set ts \<subseteq> W"
  shows "writesVia W \<lparr>label = t, resolved = r\<rparr> st (addLinks_targets r s st ts)"
  using assms
proof (induction ts arbitrary: st)
  case Nil
  then show ?case by simp
next
  case (Cons e ts)
  obtain t' w where e: "e = (t', w)" by (cases e)
  define nd where "nd = \<lparr>label = t', resolved = r\<rparr>"
  define st1 where "st1 = link (snd (addOrGetNode st nd)) s (fst (addOrGetNode st nd))"
  have unf: "addLinks_targets r s st (e # ts) = addLinks_targets r s st1 ts"
    by (simp add: e st1_def nd_def split_beta)
  have s1: "s \<in> ids st1" using Cons.prems(1) by (simp add: st1_def ids_addOrGetNode)
  have W': "(\<lambda>t. \<lparr>label = t, resolved = r\<rparr>) ` fst ` set ts \<subseteq> W"
    using Cons.prems(3) by auto
  have ndW: "nd \<in> W" using Cons.prems(3) by (auto simp: e nd_def)
  have l1: "steps W (snd (addOrGetNode st nd)) st1"
    unfolding st1_def
    by (rule steps_link [OF steps_refl]) (simp_all add: ids_addOrGetNode Cons.prems(1))
  have rest: "steps W st1 (addLinks_targets r s st1 ts)"
    by (rule addLinks_targets_steps [OF s1 W'])
  show ?case
  proof (cases "t = t'")
    case True
    have "steps W (snd (addOrGetNode st nd)) (addLinks_targets r s st1 ts)"
      by (rule steps_trans [OF rest l1])
    then show ?thesis unfolding unf using True by (simp add: nd_def writesVia_here)
  next
    case False
    then have "t \<in> fst ` set ts" using Cons.prems(2) by (auto simp: e)
    then have "writesVia W \<lparr>label = t, resolved = r\<rparr> st1 (addLinks_targets r s st1 ts)"
      by (rule Cons.IH [OF s1 _ W'])
    moreover have "steps W st st1"
      by (rule steps_trans [OF l1 steps_node [OF steps_refl ndW]])
    ultimately show ?thesis unfolding unf by (rule writesVia_before [rotated])
  qed
qed

lemma addLinks_via:
  assumes "(l \<in> set (sourceLabels ls) \<and> f = True) \<or> (l \<in> set (targetLabels ls) \<and> f = r)"
    "(\<lambda>t. \<lparr>label = t, resolved = True\<rparr>) ` set (sourceLabels ls) \<subseteq> W"
    "(\<lambda>t. \<lparr>label = t, resolved = r\<rparr>) ` set (targetLabels ls) \<subseteq> W"
  shows "writesVia W \<lparr>label = l, resolved = f\<rparr> st (addLinks st ls r)"
  using assms
proof (induction ls arbitrary: st)
  case Nil
  then show ?case by simp
next
  case (Cons e ls)
  obtain sf ts where e: "e = (sf, ts)" by (cases e)
  define nd where "nd = \<lparr>label = sf, resolved = True\<rparr>"
  define s where "s = fst (addOrGetNode st nd)"
  define st1 where "st1 = snd (addOrGetNode st nd)"
  define st2 where "st2 = addLinks_targets r s st1 ts"
  have unf: "addLinks st (e # ls) r = addLinks st2 ls r"
    by (simp add: e st2_def st1_def s_def nd_def split_beta)
  have s1: "s \<in> ids st1" by (simp add: st1_def s_def ids_addOrGetNode)
  have Ws: "(\<lambda>t. \<lparr>label = t, resolved = True\<rparr>) ` set (sourceLabels ls) \<subseteq> W"
    and Wt: "(\<lambda>t. \<lparr>label = t, resolved = r\<rparr>) ` set (targetLabels ls) \<subseteq> W"
    and Wts: "(\<lambda>t. \<lparr>label = t, resolved = r\<rparr>) ` fst ` set ts \<subseteq> W"
    and ndW: "nd \<in> W"
    using Cons.prems(2,3) by (auto simp: e nd_def)
  have a: "steps W st st1" unfolding st1_def by (rule steps_node [OF steps_refl ndW])
  have b: "steps W st1 st2" unfolding st2_def by (rule addLinks_targets_steps [OF s1 Wts])
  have rest: "steps W st2 (addLinks st2 ls r)" by (rule addLinks_steps [OF Ws Wt])
  consider (src) "l = sf" "f = True" | (tgt) "l \<in> fst ` set ts" "f = r"
    | (later) "(l \<in> set (sourceLabels ls) \<and> f = True) \<or> (l \<in> set (targetLabels ls) \<and> f = r)"
    using Cons.prems(1) by (auto simp: e)
  then show ?case
  proof cases
    case src
    have "steps W (snd (addOrGetNode st nd)) (addLinks st2 ls r)"
      using steps_trans [OF rest b] by (simp add: st1_def)
    then show ?thesis unfolding unf using src by (simp add: nd_def writesVia_here)
  next
    case tgt
    have "writesVia W \<lparr>label = l, resolved = r\<rparr> st1 st2"
      unfolding st2_def by (rule addLinks_targets_via [OF s1 tgt(1) Wts])
    then have "writesVia W \<lparr>label = l, resolved = r\<rparr> st st2"
      by (rule writesVia_before [OF a])
    then show ?thesis unfolding unf using tgt(2) rest by (simp add: writesVia_after)
  next
    case later
    then have "writesVia W \<lparr>label = l, resolved = f\<rparr> st2 (addLinks st2 ls r)"
      by (rule Cons.IH [OF _ Ws Wt])
    then show ?thesis unfolding unf by (rule writesVia_before [OF steps_trans [OF b a]])
  qed
qed

definition resolvedLabels :: "MetadataCache \<Rightarrow> string list" where
  "resolvedLabels mc =
     sourceLabels (resolvedLinks mc) @ targetLabels (resolvedLinks mc) @
     sourceLabels (unresolvedLinks mc)"

lemma fromMetadataCache_via:
  assumes "l \<in> set (resolvedLabels mc)"
  shows "writesVia (cacheWrites mc) \<lparr>label = l, resolved = True\<rparr> st (fromMetadataCache st mc)"
proof -
  define W where "W = cacheWrites mc"
  have W1: "(\<lambda>t. \<lparr>label = t, resolved = True\<rparr>) ` set (sourceLabels (resolvedLinks mc)) \<subseteq> W"
    and W2: "(\<lambda>t. \<lparr>label = t, resolved = True\<rparr>) ` set (targetLabels (resolvedLinks mc)) \<subseteq> W"
    and W3: "(\<lambda>t. \<lparr>label = t, resolved = True\<rparr>) ` set (sourceLabels (unresolvedLinks mc)) \<subseteq> W"
    and W4: "(\<lambda>t. \<lparr>label = t, resolved = False\<rparr>) ` set (targetLabels (unresolvedLinks mc)) \<subseteq> W"
    by (auto simp: W_def cacheWrites_def)
  define stA where "stA = addLinks st (resolvedLinks mc) True"
  have unf: "fromMetadataCache st mc = addLinks stA (unresolvedLinks mc) False"
    by (simp add: fromMetadataCache_def stA_def)
  have a: "steps W st stA" unfolding stA_def by (rule addLinks_steps [OF W1 W2])
  have b: "steps W stA (addLinks stA (unresolvedLinks mc) False)"
    by (rule addLinks_steps [OF W3 W4])
  consider (res) "l \<in> set (sourceLabels (resolvedLinks mc)) \<or> l \<in> set (targetLabels (resolvedLinks mc))"
    | (unres) "l \<in> set (sourceLabels (unresolvedLinks mc))"
    using assms by (auto simp: resolvedLabels_def)
  then have "writesVia W \<lparr>label = l, resolved = True\<rparr> st (addLinks stA (unresolvedLinks mc) False)"
  proof cases
    case res
    then have "writesVia W \<lparr>label = l, resolved = True\<rparr> st stA"
      unfolding stA_def by (intro addLinks_via [OF _ W1 W2]) auto
    then show ?thesis using b by (rule writesVia_after)
  next
    case unres
    then have "writesVia W \<lparr>label = l, resolved = True\<rparr> stA
                 (addLinks stA (unresolvedLinks mc) False)"
      by (intro addLinks_via [OF _ W3 W4]) auto
    then show ?thesis by (rule writesVia_before [OF a])
  qed
  then show ?thesis unfolding unf W_def .
qed

lemma syncWithCache_via:
  assumes "l \<in> set (resolvedLabels mc)"
  shows "writesVia (cacheWrites mc) \<lparr>label = l, resolved = True\<rparr> st (syncWithCache st mc)"
  unfolding syncWithCache_def Let_def
  by (rule writesVia_after [OF fromMetadataCache_via [OF assms] syncNodes_steps])

lemma cacheWrites_good:
  "l \<notin> set (targetLabels (unresolvedLinks mc)) \<Longrightarrow>
     \<forall>nd\<in>cacheWrites mc. label nd = l \<longrightarrow> resolved nd"
  by (auto simp: cacheWrites_def)

text \<open>
  C2 as the code has it: a label that the snapshot lists as a source (of either record) or
  as a resolved target, and nowhere as an unresolved target, ends fromMetadataCache and
  syncWithCache with its resolved flag true.
\<close>

theorem resolved_unless_unresolved_target:
  assumes "consistent st"
    and "l \<in> set (resolvedLabels mc)"
    and "l \<notin> set (targetLabels (unresolvedLinks mc))"
  shows "resolvedOf (fromMetadataCache st mc) l = Some True \<and>
         resolvedOf (syncWithCache st mc) l = Some True"
  using writesVia_resolved [OF fromMetadataCache_via [OF assms(2)] assms(1) cacheWrites_good [OF assms(3)]]
        writesVia_resolved [OF syncWithCache_via [OF assms(2)] assms(1) cacheWrites_good [OF assms(3)]]
  by simp

definition snapshotBoth :: MetadataCache where
  "snapshotBoth =
     \<lparr>resolvedLinks = [(''A'', [(''X'', 1)])], unresolvedLinks = [(''B'', [(''X'', 1)])]\<rparr>"

theorem resolved_unless_unresolved_target_witness:
  "consistent (syncWithCache newLayout snapshot1) \<and>
   ''A'' \<in> set (resolvedLabels snapshotBoth) \<and>
   ''A'' \<notin> set (targetLabels (unresolvedLinks snapshotBoth)) \<and>
   resolvedOf (fromMetadataCache (syncWithCache newLayout snapshot1) snapshotBoth) ''A'' = Some True \<and>
   resolvedOf (syncWithCache (syncWithCache newLayout snapshot1) snapshotBoth) ''A'' = Some True"
proof -
  have c: "consistent (syncWithCache newLayout snapshot1)" by code_simp
  have a: "''A'' \<in> set (resolvedLabels snapshotBoth)" by code_simp
  have b: "''A'' \<notin> set (targetLabels (unresolvedLinks snapshotBoth))" by code_simp
  show ?thesis
    using c a b resolved_unless_unresolved_target [OF c a b] by simp
qed

text \<open>
  C2 as stated fails: \<open>X\<close> is a resolved target of \<open>A\<close> and an unresolved target of
  \<open>B\<close>; the unresolved record is processed last, so \<open>X\<close> ends marked unresolved after
  fromMetadataCache and after syncWithCache.
\<close>

theorem resolved_does_not_win:
  "''X'' \<in> set (targetLabels (resolvedLinks snapshotBoth)) \<and>
   resolvedOf (fromMetadataCache newLayout snapshotBoth) ''X'' = Some False \<and>
   resolvedOf (syncWithCache newLayout snapshotBoth) ''X'' = Some False"
  by code_simp

section \<open>Render buffers (Graph3DRenderer.ts)\<close>

text \<open>
  The buffers are three.js objects. A \<^verbatim>\<open>Float32Array\<close> is a list of floats of fixed
  length; the floats themselves are kept abstract (type \<open>'f\<close>), since the code only
  stores and copies them. \<^verbatim>\<open>BufferAttribute.count\<close> is the array length divided by
  the item size.
\<close>

type_synonym 'f vec3 = "'f \<times> 'f \<times> 'f"

text \<open>
  \<^verbatim>\<open>TypedArray.prototype.set(source)\<close> (offset 0), as \<^verbatim>\<open>BufferAttribute.set\<close> calls
  it: copies the source over the start of the target and throws a RangeError (here
  \<open>None\<close>) when the source is longer than the target.
\<close>

definition typedSet :: "'f list \<Rightarrow> 'f list \<Rightarrow> 'f list option" where
  "typedSet target source =
     (if length source \<le> length target
      then Some (source @ drop (length source) target) else None)"

text \<open>
  Writing consecutive elements from an offset on, as \<^verbatim>\<open>Matrix4.toArray\<close>,
  \<^verbatim>\<open>Color.toArray\<close> and \<^verbatim>\<open>setXYZ\<close> do. A typed array ignores a write past its end,
  as \<open>list_update\<close> does.
\<close>

fun writeAt :: "'f list \<Rightarrow> nat \<Rightarrow> 'f list \<Rightarrow> 'f list" where
  "writeAt arr off [] = arr"
| "writeAt arr off (v # vs) = writeAt (arr[off := v]) (Suc off) vs"

text \<open>
  \<^verbatim>\<open>THREE.InstancedMesh\<close>: \<open>instanceMatrix\<close> holds 16 floats per instance,
  \<open>instanceColor\<close> is \<open>null\<close> until the first \<open>setColorAt\<close> and then holds 3 floats
  per instance, \<open>count\<close> is the number of instances drawn.
\<close>

record 'f InstancedMesh =
  instanceMatrix :: "'f list"
  instanceColor :: "'f list option"
  count :: nat

text \<open>
  \<^verbatim>\<open>
  private createSphereMesh(count, material) {
      const instancedSpheres = new THREE.InstancedMesh(this.sphereGeometry, material, count);
      instancedSpheres.instanceMatrix.setUsage(THREE.DynamicDrawUsage);
      return instancedSpheres;
  }
  \<close>
  The constructor allocates \<open>count * 16\<close> floats, sets \<open>instanceColor = null\<close> and
  \<open>this.count = count\<close>. What a fresh matrix array holds depends on the three.js release
  (zeros, or one identity matrix per instance); \<open>fill\<close> gives the float at each index.
\<close>

definition createSphereMesh :: "(nat \<Rightarrow> 'f) \<Rightarrow> nat \<Rightarrow> 'f InstancedMesh" where
  "createSphereMesh fill n =
     \<lparr>instanceMatrix = map fill [0..<n * 16], instanceColor = None, count = n\<rparr>"

definition setMatrixAt :: "'f InstancedMesh \<Rightarrow> nat \<Rightarrow> 'f list \<Rightarrow> 'f InstancedMesh" where
  "setMatrixAt m index matrix =
     m\<lparr>instanceMatrix := writeAt (instanceMatrix m) (index * 16) matrix\<rparr>"

text \<open>
  \<^verbatim>\<open>setColorAt(index, color)\<close>: the first call creates the colour array, three floats
  per instance of \<open>instanceMatrix.count\<close>, filled with 1.
\<close>

definition setColorAt :: "'f::one InstancedMesh \<Rightarrow> nat \<Rightarrow> 'f vec3 \<Rightarrow> 'f InstancedMesh" where
  "setColorAt m index c =
     (let colors = (case instanceColor m of
                      None \<Rightarrow> replicate (length (instanceMatrix m) div 16 * 3) 1
                    | Some cs \<Rightarrow> cs)
      in m\<lparr>instanceColor := Some (writeAt colors (index * 3) [fst c, fst (snd c), snd (snd c)])\<rparr>)"

text \<open>\<^verbatim>\<open>new THREE.Matrix4().makeTranslation(position)\<close>, in column-major order.\<close>

definition makeTranslation :: "'f::{zero,one} vec3 \<Rightarrow> 'f list" where
  "makeTranslation p =
     [1, 0, 0, 0,  0, 1, 0, 0,  0, 0, 1, 0,  fst p, fst (snd p), snd (snd p), 1]"

text \<open>
  \<^verbatim>\<open>THREE.LineSegments\<close> with its geometry's \<open>position\<close> attribute (3 floats per
  vertex) and draw range; a fresh geometry draws from 0 with count \<open>Infinity\<close> (\<open>None\<close>).
  \<^verbatim>\<open>
  private createLinkMesh(linkCount, material) {
      const positions = new Float32Array(linkCount * 6);
      ...
  }
  \<close>
\<close>

record 'f LineSegments =
  position :: "'f list"
  drawRange :: "nat \<times> nat option"

definition createLinkMesh :: "nat \<Rightarrow> 'f::zero LineSegments" where
  "createLinkMesh linkCount = \<lparr>position = replicate (linkCount * 6) 0, drawRange = (0, None)\<rparr>"

definition setXYZ :: "'f list \<Rightarrow> nat \<Rightarrow> 'f vec3 \<Rightarrow> 'f list" where
  "setXYZ arr index p = writeAt arr (index * 3) [fst p, fst (snd p), snd (snd p)]"

subsection \<open>Labels (renderer/NodeLabel.ts)\<close>

text \<open>
  A \<open>NodeLabel\<close> owns a canvas and a sprite. \<open>labelText\<close> is the field \<open>text\<close>,
  undefined until \<open>setText\<close> succeeds; a new canvas is 300 by 150; the sprite's scale is
  the canvas size divided by 100 and is not stored separately.
\<close>

record 'f NodeLabel =
  labelText :: "string option"
  canvasWidth :: nat
  canvasHeight :: nat
  spritePosition :: "'f vec3"

text \<open>
  \<^verbatim>\<open>
  setText(text: string) {
      if (this.text === text) { return; }
      const ctx = this.canvas.getContext("2d");
      if (!ctx) {
          console.error(`Could not get 2D context for ${this.canvas}`);
          return;
      }
      ctx.font = this.labelFont;
      const metrics = ctx.measureText(text);
      this.canvas.width = metrics.width + 20;
      this.canvas.height = 68;
      ...
      this.text = text;
  }
  \<close>
  Whether the host hands out a 2D context (\<open>ctx\<close>) and how wide it measures a text
  (\<open>measureText\<close>) are inputs. The result is the label and the lines written to the console.
\<close>

definition setText ::
  "(string \<Rightarrow> nat) \<Rightarrow> bool \<Rightarrow> 'f NodeLabel \<Rightarrow> string \<Rightarrow> 'f NodeLabel \<times> string list" where
  "setText measureText ctx lbl txt =
     (if labelText lbl = Some txt then (lbl, [])
      else if \<not> ctx then (lbl, [''Could not get 2D context for [object HTMLCanvasElement]''])
      else (lbl\<lparr>canvasWidth := measureText txt + 20, canvasHeight := 68, labelText := Some txt\<rparr>, []))"

text \<open>The constructor: a fresh canvas and sprite, then \<^verbatim>\<open>this.setText(text)\<close>.\<close>

definition newNodeLabel ::
  "(string \<Rightarrow> nat) \<Rightarrow> bool \<Rightarrow> string \<Rightarrow> 'f::zero NodeLabel \<times> string list" where
  "newNodeLabel measureText ctx txt =
     setText measureText ctx
       \<lparr>labelText = None, canvasWidth = 300, canvasHeight = 150, spritePosition = (0, 0, 0)\<rparr> txt"

subsection \<open>The renderer\<close>

datatype SceneObject = AmbientLight | DirectionalLight | Spheres | Links | Sprite NodeId

text \<open>
  \<open>scene.add\<close> appends an object (detaching it first if it is already attached);
  \<open>scene.remove\<close> detaches it. \<open>Spheres\<close> and \<open>Links\<close> stand for the current
  instanced mesh and line mesh, \<open>Sprite i\<close> for the sprite of the label made for node
  \<open>i\<close>. \<open>nodesData\<close> is a sparse array indexed by node id.
\<close>

definition sceneAdd :: "SceneObject list \<Rightarrow> SceneObject \<Rightarrow> SceneObject list" where
  "sceneAdd s ob = removeAll ob s @ [ob]"

record 'f Graph3DRenderer =
  scene :: "SceneObject list"
  instancedSpheres :: "'f InstancedMesh"
  linkMesh :: "'f LineSegments"
  nodesData :: "NodeId \<rightharpoonup> 'f NodeLabel"
  console :: "string list"

text \<open>
  \<^verbatim>\<open>
  initializeBuffers(nodeCount: number, linkCount: number) {
      this.nodesData = [];
      this.instancedSpheres = this.createSphereMesh(nodeCount, this.sphereMaterial);
      this.scene.add(this.instancedSpheres);
      this.linkMesh = this.createLinkMesh(linkCount, this.linkMaterial);
      this.scene.add(this.linkMesh);
  }
  \<close>
  on the scene that the constructor leaves (two lights).
\<close>

definition initializeBuffers :: "(nat \<Rightarrow> 'f) \<Rightarrow> nat \<Rightarrow> nat \<Rightarrow> 'f::zero Graph3DRenderer" where
  "initializeBuffers fill nodeCount linkCount =
     \<lparr>scene = sceneAdd (sceneAdd [AmbientLight, DirectionalLight] Spheres) Links,
      instancedSpheres = createSphereMesh fill nodeCount,
      linkMesh = createLinkMesh linkCount,
      nodesData = Map.empty,
      console = []\<rparr>"

definition setNodeColor ::
  "'f::one Graph3DRenderer \<Rightarrow> NodeId \<Rightarrow> 'f vec3 \<Rightarrow> 'f Graph3DRenderer" where
  "setNodeColor r nodeId color = r\<lparr>instancedSpheres := setColorAt (instancedSpheres r) nodeId color\<rparr>"

text \<open>
  \<^verbatim>\<open>
  setNodeLabel(nodeId: number, labelText: string) {
      let label = this.nodesData[nodeId]?.label;
      if (!label) {
          label = new NodeLabel(labelText);
          this.scene.add(label.sprite);
      }
      this.nodesData[nodeId] = { label };
  }
  \<close>
\<close>

definition setNodeLabel ::
  "(string \<Rightarrow> nat) \<Rightarrow> bool \<Rightarrow> 'f::zero Graph3DRenderer \<Rightarrow> NodeId \<Rightarrow> string \<Rightarrow> 'f Graph3DRenderer" where
  "setNodeLabel measureText ctx r nodeId txt =
     (case nodesData r nodeId of
        Some lbl \<Rightarrow> r\<lparr>nodesData := (nodesData r)(nodeId \<mapsto> lbl)\<rparr>
      | None \<Rightarrow>
          (let (lbl, lines) = newNodeLabel measureText ctx txt
           in r\<lparr>scene := sceneAdd (scene r) (Sprite nodeId),
                nodesData := (nodesData r)(nodeId \<mapsto> lbl),
                console := console r @ lines\<rparr>))"

text \<open>
  \<^verbatim>\<open>
  private setNodePosition(body: Body, nodeId: number) {
      const position = new THREE.Vector3(body.pos.x, body.pos.y, body.pos.z ?? 0);
      const matrix = new THREE.Matrix4().makeTranslation(position);
      this.instancedSpheres.setMatrixAt(nodeId, matrix);
      const labelSprite = this.nodesData[nodeId]?.label.sprite;
      if (labelSprite) { labelSprite.position.copy(position); ... }
  }
  \<close>
\<close>

definition setNodePosition ::
  "'f::{zero,one} Graph3DRenderer \<Rightarrow> 'f vec3 \<Rightarrow> NodeId \<Rightarrow> 'f Graph3DRenderer" where
  "setNodePosition r pos nodeId =
     r\<lparr>instancedSpheres := setMatrixAt (instancedSpheres r) nodeId (makeTranslation pos),
       nodesData := (case nodesData r nodeId of
                       None \<Rightarrow> nodesData r
                     | Some lbl \<Rightarrow> (nodesData r)(nodeId \<mapsto> lbl\<lparr>spritePosition := pos\<rparr>))\<rparr>"

text \<open>
  The layout (ngraph.forcelayout) as the renderer reads it: its graph, the bodies that
  \<open>forEachBody\<close> enumerates with their positions, and \<open>getLinkPosition\<close>.
\<close>

record 'f Layout =
  layoutGraph :: Graph
  bodies :: "(NodeId \<times> 'f vec3) list"
  getLinkPosition :: "LinkId \<Rightarrow> 'f vec3 \<times> 'f vec3"

subsection \<open>updateNodePositions\<close>

text \<open>
  The body of the \<^verbatim>\<open>if (graph.getNodeCount() > sphereBufferCapacity)\<close> block:
  \<^verbatim>\<open>
  const newSize = 2 * sphereBufferCapacity;
  const newInstances = this.createSphereMesh(newSize, this.sphereMaterial);
  // Copy the matrices from the previous mesh
  newInstances.instanceMatrix.set(this.instancedSpheres.instanceMatrix.array);
  if (this.instancedSpheres.instanceColor && newInstances.instanceColor) {
      newInstances.instanceColor.set(this.instancedSpheres.instanceColor.array);
  }
  this.scene.remove(this.instancedSpheres);
  this.instancedSpheres.dispose();
  this.instancedSpheres = newInstances;
  this.scene.add(newInstances);
  \<close>
  \<open>None\<close> is the RangeError of a \<open>set\<close> whose source does not fit.
\<close>

definition sphereBufferCapacity :: "'f Graph3DRenderer \<Rightarrow> nat" where
  "sphereBufferCapacity r = length (instanceMatrix (instancedSpheres r)) div 16"

definition growSpheres :: "(nat \<Rightarrow> 'f) \<Rightarrow> 'f Graph3DRenderer \<Rightarrow> 'f Graph3DRenderer option" where
  "growSpheres fill r =
     (let old = instancedSpheres r;
          newSize = 2 * sphereBufferCapacity r;
          newInstances = createSphereMesh fill newSize
      in case typedSet (instanceMatrix newInstances) (instanceMatrix old) of
           None \<Rightarrow> None
         | Some matrices \<Rightarrow>
             (let copied = newInstances\<lparr>instanceMatrix := matrices\<rparr>;
                  swap = (\<lambda>m. r\<lparr>scene := sceneAdd (removeAll Spheres (scene r)) Spheres,
                                   instancedSpheres := m\<rparr>)
              in case (instanceColor old, instanceColor copied) of
                   (Some oldColors, Some newColors) \<Rightarrow>
                     (case typedSet newColors oldColors of
                        None \<Rightarrow> None
                      | Some colors \<Rightarrow> Some (swap (copied\<lparr>instanceColor := Some colors\<rparr>)))
                 | _ \<Rightarrow> Some (swap copied)))"

text \<open>
  \<^verbatim>\<open>
  updateNodePositions(layout: Layout<VaultGraph>) {
      const { graph } = layout;
      const sphereBufferCapacity = this.instancedSpheres.instanceMatrix.count;
      if (graph.getNodeCount() > sphereBufferCapacity) { ... }
      layout.forEachBody((body, nodeId: number) => { this.setNodePosition(body, nodeId) });
      this.instancedSpheres.count = graph.getNodeCount();
      ...
  }
  \<close>
\<close>

definition updateNodePositions ::
  "(nat \<Rightarrow> 'f) \<Rightarrow> 'f::{zero,one} Graph3DRenderer \<Rightarrow> 'f Layout \<Rightarrow> 'f Graph3DRenderer option" where
  "updateNodePositions fill r layout =
     (case (if getNodeCount (layoutGraph layout) > sphereBufferCapacity r
            then growSpheres fill r else Some r) of
        None \<Rightarrow> None
      | Some r1 \<Rightarrow>
          (let r2 = foldl (\<lambda>r b. setNodePosition r (snd b) (fst b)) r1 (bodies layout)
           in Some (r2\<lparr>instancedSpheres :=
                        (instancedSpheres r2)\<lparr>count := getNodeCount (layoutGraph layout)\<rparr>\<rparr>)))"

subsection \<open>updateLinkPositions\<close>

text \<open>
  \<^verbatim>\<open>
  updateLinkPositions(layout: Layout<VaultGraph>) {
      const linkBufferCapacity = this.linkMesh.geometry.getAttribute('position').count / 2;
      if (layout.graph.getLinkCount() > linkBufferCapacity) {
          const newMesh = this.createLinkMesh(2 * linkBufferCapacity, this.linkMaterial);
          const newGeometry = newMesh.geometry.getAttribute('position');
          const oldGeometry = this.linkMesh.geometry.getAttribute('position');
          newGeometry.set(oldGeometry.array);
          this.scene.remove(this.linkMesh);
          this.linkMesh.geometry.dispose();
          this.linkMesh = newMesh;
          this.scene.add(this.linkMesh);
      }
      const linePositionAttribute = this.linkMesh.geometry.getAttribute('position');
      layout.graph.forEachLink((link) => {
          const { from, to } = layout.getLinkPosition(link.id);
          linePositionAttribute.setXYZ(link.data, from.x, from.y, from.z ?? 0);
          linePositionAttribute.setXYZ(link.data + 1, to.x, to.y, to.z ?? 0);
      });
      this.linkMesh.geometry.setDrawRange(0, 2 * layout.graph.getLinkCount());
      ...
  }
  \<close>
  The position array always holds six floats per link slot, so the division by 2 is exact.
\<close>

definition linkBufferCapacity :: "'f Graph3DRenderer \<Rightarrow> nat" where
  "linkBufferCapacity r = length (position (linkMesh r)) div 3 div 2"

definition growLinks :: "'f::zero Graph3DRenderer \<Rightarrow> 'f Graph3DRenderer option" where
  "growLinks r =
     (let newMesh = createLinkMesh (2 * linkBufferCapacity r)
      in case typedSet (position newMesh) (position (linkMesh r)) of
           None \<Rightarrow> None
         | Some positions \<Rightarrow>
             Some (r\<lparr>scene := sceneAdd (removeAll Links (scene r)) Links,
                     linkMesh := newMesh\<lparr>position := positions\<rparr>\<rparr>))"

definition writeLink ::
  "(LinkId \<Rightarrow> 'f vec3 \<times> 'f vec3) \<Rightarrow> 'f list \<Rightarrow> LinkId \<times> nat \<Rightarrow> 'f list" where
  "writeLink pos arr l =
     setXYZ (setXYZ arr (snd l) (fst (pos (fst l)))) (snd l + 1) (snd (pos (fst l)))"

definition updateLinkPositions ::
  "'f::zero Graph3DRenderer \<Rightarrow> 'f Layout \<Rightarrow> 'f Graph3DRenderer option" where
  "updateLinkPositions r layout =
     (case (if getLinkCount (layoutGraph layout) > linkBufferCapacity r
            then growLinks r else Some r) of
        None \<Rightarrow> None
      | Some r1 \<Rightarrow>
          Some (r1\<lparr>linkMesh :=
                  \<lparr>position = foldl (writeLink (getLinkPosition layout)) (position (linkMesh r1))
                                 (links (layoutGraph layout)),
                   drawRange = (0, Some (2 * getLinkCount (layoutGraph layout)))\<rparr>\<rparr>))"

text \<open>Every buffer the renderer builds holds whole instances and whole link slots.\<close>

definition wholeBuffers :: "'f Graph3DRenderer \<Rightarrow> bool" where
  "wholeBuffers r =
     (length (instanceMatrix (instancedSpheres r)) mod 16 = 0 \<and>
      length (position (linkMesh r)) mod 6 = 0)"

section \<open>Buffer growth and draw range (C6, C7, C8)\<close>

lemma length_writeAt [simp]: "length (writeAt arr off vs) = length arr"
  by (induction vs arbitrary: arr off) auto

lemma setNodePosition_matrix_length [simp]:
  "length (instanceMatrix (instancedSpheres (setNodePosition r pos i))) =
     length (instanceMatrix (instancedSpheres r))"
  by (simp add: setNodePosition_def setMatrixAt_def)

lemma setNodePosition_linkMesh [simp]: "linkMesh (setNodePosition r pos i) = linkMesh r"
  by (simp add: setNodePosition_def)

lemma bodies_matrix_length [simp]:
  "length (instanceMatrix (instancedSpheres
      (foldl (\<lambda>r b. setNodePosition r (snd b) (fst b)) r bs))) =
     length (instanceMatrix (instancedSpheres r))"
  by (induction bs arbitrary: r) auto

lemma bodies_linkMesh [simp]:
  "linkMesh (foldl (\<lambda>r b. setNodePosition r (snd b) (fst b)) r bs) = linkMesh r"
  by (induction bs arbitrary: r) auto

lemma writeLink_length [simp]: "length (writeLink pos arr l) = length arr"
  by (simp add: writeLink_def setXYZ_def)

lemma writeLinks_length [simp]: "length (foldl (writeLink pos) arr ls) = length arr"
  by (induction ls arbitrary: arr) auto

text \<open>
  Growing the instance buffer never fails, doubles the capacity exactly, keeps every
  float of the old matrix array at its index, and leaves the new mesh without a colour
  array: a fresh \<open>InstancedMesh\<close> has \<open>instanceColor = null\<close>, so the guard of the
  colour copy is never met.
\<close>

lemma growSpheres_result:
  assumes "length (instanceMatrix (instancedSpheres r)) mod 16 = 0"
  shows "\<exists>r'. growSpheres fill r = Some r' \<and>
           sphereBufferCapacity r' = 2 * sphereBufferCapacity r \<and>
           length (instanceMatrix (instancedSpheres r')) mod 16 = 0 \<and>
           take (length (instanceMatrix (instancedSpheres r))) (instanceMatrix (instancedSpheres r'))
             = instanceMatrix (instancedSpheres r) \<and>
           instanceColor (instancedSpheres r') = None \<and>
           linkMesh r' = linkMesh r \<and> nodesData r' = nodesData r"
proof -
  define old where "old = instanceMatrix (instancedSpheres r)"
  obtain c where c: "length old = 16 * c"
    using assms unfolding old_def by (auto simp: mod_eq_0_iff_dvd elim: dvdE)
  have cap: "sphereBufferCapacity r = c" by (simp add: sphereBufferCapacity_def old_def [symmetric] c)
  have fit: "length old \<le> length (map fill [0..<2 * c * 16])" by (simp add: c)
  have ts: "typedSet (map fill [0..<2 * c * 16]) old =
              Some (old @ drop (length old) (map fill [0..<2 * c * 16]))"
    using fit unfolding typedSet_def by (simp only: if_True)
  show ?thesis
    unfolding growSpheres_def Let_def cap createSphereMesh_def
    using ts by (simp add: old_def [symmetric] sphereBufferCapacity_def c split: option.splits)
qed

lemma growLinks_result:
  assumes "length (position (linkMesh r)) mod 6 = 0"
  shows "\<exists>r'. growLinks r = Some r' \<and>
           linkBufferCapacity r' = 2 * linkBufferCapacity r \<and>
           length (position (linkMesh r')) mod 6 = 0 \<and>
           take (length (position (linkMesh r))) (position (linkMesh r')) = position (linkMesh r) \<and>
           instancedSpheres r' = instancedSpheres r \<and> nodesData r' = nodesData r"
proof -
  define old where "old = position (linkMesh r)"
  obtain c where c: "length old = 6 * c"
    using assms unfolding old_def by (auto simp: mod_eq_0_iff_dvd elim: dvdE)
  have cap: "linkBufferCapacity r = c"
    by (simp add: linkBufferCapacity_def old_def [symmetric] c div_mult2_eq [symmetric])
  have ts: "typedSet (replicate (2 * c * 6) 0) old =
              Some (old @ drop (length old) (replicate (2 * c * 6) 0))"
    unfolding typedSet_def by (simp add: c)
  show ?thesis
    unfolding growLinks_def Let_def cap createLinkMesh_def
    using ts
    by (simp add: old_def [symmetric] linkBufferCapacity_def c div_mult2_eq [symmetric])
qed

lemma updateNodePositions_result:
  assumes "wholeBuffers r"
  shows "\<exists>r'. updateNodePositions fill r layout = Some r' \<and> wholeBuffers r' \<and>
           count (instancedSpheres r') = getNodeCount (layoutGraph layout)"
proof (cases "getNodeCount (layoutGraph layout) > sphereBufferCapacity r")
  case True
  have a: "length (instanceMatrix (instancedSpheres r)) mod 16 = 0"
    using assms by (simp add: wholeBuffers_def)
  obtain r1 where r1: "growSpheres fill r = Some r1"
      "length (instanceMatrix (instancedSpheres r1)) mod 16 = 0" "linkMesh r1 = linkMesh r"
    using growSpheres_result [OF a, of fill] by (elim exE conjE)
  show ?thesis
    using True r1 assms by (simp add: updateNodePositions_def Let_def wholeBuffers_def)
next
  case False
  then show ?thesis
    using assms by (simp add: updateNodePositions_def Let_def wholeBuffers_def)
qed

lemma updateLinkPositions_result:
  assumes "wholeBuffers r"
  shows "\<exists>r'. updateLinkPositions r layout = Some r' \<and> wholeBuffers r' \<and>
           drawRange (linkMesh r') = (0, Some (2 * getLinkCount (layoutGraph layout)))"
proof (cases "getLinkCount (layoutGraph layout) > linkBufferCapacity r")
  case True
  have a: "length (position (linkMesh r)) mod 6 = 0"
    using assms by (simp add: wholeBuffers_def)
  obtain r1 where r1: "growLinks r = Some r1"
      "length (position (linkMesh r1)) mod 6 = 0" "instancedSpheres r1 = instancedSpheres r"
    using growLinks_result [OF a] by (elim exE conjE)
  show ?thesis
    using True r1 assms by (simp add: updateLinkPositions_def wholeBuffers_def)
next
  case False
  then show ?thesis
    using assms by (simp add: updateLinkPositions_def wholeBuffers_def)
qed

lemma initializeBuffers_whole: "wholeBuffers (initializeBuffers fill n k)"
  by (simp add: wholeBuffers_def initializeBuffers_def createSphereMesh_def createLinkMesh_def)

text \<open>
  C8. Draw range tracks count, not capacity: updateNodePositions always returns and leaves
  the instance draw count equal to the graph's node count; updateLinkPositions always
  returns and leaves the draw range at exactly 2 * link count vertices from 0; and when
  the graph has M nodes more at the next call, the draw count is the previous one plus M,
  whether or not a buffer was doubled in between.
\<close>

theorem draw_range_tracks_count:
  assumes "wholeBuffers r"
  shows "(\<exists>r'. updateNodePositions fill r layout = Some r' \<and> wholeBuffers r' \<and>
              count (instancedSpheres r') = getNodeCount (layoutGraph layout) \<and>
              (\<exists>r''. updateNodePositions fill r' layout' = Some r'' \<and>
                 (getNodeCount (layoutGraph layout') = getNodeCount (layoutGraph layout) + M
                    \<longrightarrow> count (instancedSpheres r'') = count (instancedSpheres r') + M))) \<and>
         (\<exists>r'. updateLinkPositions r layout = Some r' \<and> wholeBuffers r' \<and>
              drawRange (linkMesh r') = (0, Some (2 * getLinkCount (layoutGraph layout))))"
proof -
  obtain r1 where r1: "updateNodePositions fill r layout = Some r1" "wholeBuffers r1"
      "count (instancedSpheres r1) = getNodeCount (layoutGraph layout)"
    using updateNodePositions_result [OF assms, of fill layout] by (elim exE conjE)
  obtain r2 where r2: "updateNodePositions fill r1 layout' = Some r2"
      "count (instancedSpheres r2) = getNodeCount (layoutGraph layout')"
    using updateNodePositions_result [OF r1(2), of fill layout'] by (elim exE conjE)
  show ?thesis
    using r1 r2 updateLinkPositions_result [OF assms, of layout] by simp
qed

text \<open>A layout for a graph: node \<open>i\<close> sits at \<open>(i, 0, 0)\<close>.\<close>

definition lineLayout :: "Graph \<Rightarrow> int Layout" where
  "lineLayout g =
     \<lparr>layoutGraph = g,
      bodies = map (\<lambda>e. (fst e, (int (fst e), 0, 0))) (nodes g),
      getLinkPosition = (\<lambda>l. ((int (fst l), 0, 0), (int (snd l), 0, 0)))\<rparr>"

definition zeroFill :: "nat \<Rightarrow> int" where
  "zeroFill i = 0"

theorem draw_range_tracks_count_witness:
  "wholeBuffers (initializeBuffers zeroFill 1 1) \<and>
   map_option (\<lambda>r. count (instancedSpheres r))
     (updateNodePositions zeroFill (initializeBuffers zeroFill 1 1)
        (lineLayout (graph (syncWithCache newLayout snapshot1)))) = Some 3 \<and>
   map_option (\<lambda>r. drawRange (linkMesh r))
     (updateLinkPositions (initializeBuffers zeroFill 1 1)
        (lineLayout (graph (syncWithCache newLayout snapshot1)))) = Some (0, Some 4)"
proof -
  have w: "wholeBuffers (initializeBuffers zeroFill 1 1)" by (rule initializeBuffers_whole)
  have n: "getNodeCount (layoutGraph (lineLayout (graph (syncWithCache newLayout snapshot1)))) = 3"
    by code_simp
  have k: "getLinkCount (layoutGraph (lineLayout (graph (syncWithCache newLayout snapshot1)))) = 2"
    by code_simp
  show ?thesis
    using w n k draw_range_tracks_count [OF w,
        of zeroFill "lineLayout (graph (syncWithCache newLayout snapshot1))"]
    by auto
qed

text \<open>
  C7 fails where one doubling is not enough. A buffer of capacity 1 facing 3 nodes grows
  to capacity 2; a buffer of capacity 0 (the view opened on an empty vault) stays at
  capacity 0 however many nodes or links arrive, since 2 * 0 = 0.
\<close>

theorem single_doubling_falls_short:
  "getNodeCount (layoutGraph (lineLayout (graph (syncWithCache newLayout snapshot1)))) = 3 \<and>
   getLinkCount (layoutGraph (lineLayout (graph (syncWithCache newLayout snapshot1)))) = 2 \<and>
   sphereBufferCapacity (initializeBuffers zeroFill 1 1) = 1 \<and>
   map_option sphereBufferCapacity
     (updateNodePositions zeroFill (initializeBuffers zeroFill 1 1)
        (lineLayout (graph (syncWithCache newLayout snapshot1)))) = Some 2 \<and>
   sphereBufferCapacity (initializeBuffers zeroFill 0 0) = 0 \<and>
   map_option sphereBufferCapacity
     (updateNodePositions zeroFill (initializeBuffers zeroFill 0 0)
        (lineLayout (graph (syncWithCache newLayout snapshot1)))) = Some 0 \<and>
   linkBufferCapacity (initializeBuffers zeroFill 0 0) = 0 \<and>
   map_option linkBufferCapacity
     (updateLinkPositions (initializeBuffers zeroFill 0 0)
        (lineLayout (graph (syncWithCache newLayout snapshot1)))) = Some 0"
  by code_simp

text \<open>
  C6 fails for colours: node 0 has been given the colour (5, 6, 7); growing the buffer
  for a second node leaves the new mesh without any colour array.
\<close>

theorem growth_drops_colors:
  "instanceColor (instancedSpheres (setNodeColor (initializeBuffers zeroFill 1 0) 0 (5, 6, 7)))
     = Some [5, 6, 7] \<and>
   getNodeCount (layoutGraph (lineLayout (graph (syncWithCache newLayout snapshotAB)))) = 2 \<and>
   map_option (\<lambda>r. instanceColor (instancedSpheres r))
     (growSpheres zeroFill (setNodeColor (initializeBuffers zeroFill 1 0) 0 (5, 6, 7)))
     = Some None \<and>
   map_option (\<lambda>r. instanceColor (instancedSpheres r))
     (updateNodePositions zeroFill (setNodeColor (initializeBuffers zeroFill 1 0) 0 (5, 6, 7))
        (lineLayout (graph (syncWithCache newLayout snapshotAB))))
     = Some None"
  by code_simp

section \<open>A label whose 2D context is refused (C9)\<close>

text \<open>
  C9 as the code has it. When the host refuses the 2D context, \<open>setText\<close> writes one
  error line and returns the label unchanged; \<open>setNodeLabel\<close> for a node without a
  label reports that line, raises nothing, and leaves both buffers and every other
  node's label alone. The label object is created all the same: it is registered under
  the node id with no text set, and its sprite is added to the scene.
\<close>

theorem context_failure_is_reported:
  assumes "nodesData r i = None" "labelText lbl \<noteq> Some txt"
  shows "setText measureText False lbl txt =
           (lbl, [''Could not get 2D context for [object HTMLCanvasElement]'']) \<and>
         console (setNodeLabel measureText False r i txt) =
           console r @ [''Could not get 2D context for [object HTMLCanvasElement]''] \<and>
         instancedSpheres (setNodeLabel measureText False r i txt) = instancedSpheres r \<and>
         linkMesh (setNodeLabel measureText False r i txt) = linkMesh r \<and>
         (\<forall>j. j \<noteq> i \<longrightarrow> nodesData (setNodeLabel measureText False r i txt) j = nodesData r j) \<and>
         (\<exists>l. nodesData (setNodeLabel measureText False r i txt) i = Some l \<and>
              labelText l = None) \<and>
         scene (setNodeLabel measureText False r i txt) = sceneAdd (scene r) (Sprite i)"
  using assms by (simp add: setText_def setNodeLabel_def newNodeLabel_def)

definition blankLabel :: "int NodeLabel" where
  "blankLabel = \<lparr>labelText = None, canvasWidth = 300, canvasHeight = 150, spritePosition = (0, 0, 0)\<rparr>"

theorem context_failure_is_reported_witness:
  "nodesData (initializeBuffers zeroFill 1 1) 0 = None \<and>
   labelText blankLabel \<noteq> Some ''A'' \<and>
   console (setNodeLabel length False (initializeBuffers zeroFill 1 1) 0 ''A'') =
     [''Could not get 2D context for [object HTMLCanvasElement]''] \<and>
   scene (setNodeLabel length False (initializeBuffers zeroFill 1 1) 0 ''A'') =
     [AmbientLight, DirectionalLight, Spheres, Links, Sprite 0]"
proof -
  have a: "nodesData (initializeBuffers zeroFill 1 1) 0 = None"
    by (simp add: initializeBuffers_def)
  have b: "labelText blankLabel \<noteq> Some ''A''" by (simp add: blankLabel_def)
  have c: "console (initializeBuffers zeroFill 1 1) = []"
    by (simp add: initializeBuffers_def)
  have d: "sceneAdd (scene (initializeBuffers zeroFill 1 1)) (Sprite 0) =
             [AmbientLight, DirectionalLight, Spheres, Links, Sprite 0]"
    by (simp add: initializeBuffers_def sceneAdd_def)
  show ?thesis
    using a b c d context_failure_is_reported [OF a b, of length] by simp
qed

text \<open>
  C9 as stated fails: with the context refused, the label is created and registered and
  the scene gains its sprite.
\<close>

theorem label_created_without_context:
  "nodesData (setNodeLabel length False (initializeBuffers zeroFill 1 1) 0 ''A'') 0 =
     Some blankLabel \<and>
   Sprite 0 \<notin> set (scene (initializeBuffers zeroFill 1 1)) \<and>
   Sprite 0 \<in> set (scene (setNodeLabel length False (initializeBuffers zeroFill 1 1) 0 ''A''))"
  by (simp add: setNodeLabel_def newNodeLabel_def setText_def initializeBuffers_def
      sceneAdd_def blankLabel_def)

end
